theory Spec2Isabelle
  imports Complex_Main "HOL-Library.Multiset"
begin

section \<open>Scene graph nodes (class SceneNode)\<close>

text \<open>
  JavaScript objects are modelled by an explicit store: a \<open>heap\<close> is the list of all
  SceneNode objects allocated so far, and a reference (\<open>ref\<close>) is the position of an
  object in that list. A JavaScript reference always points to a live object, so the
  heaps of interest only hold references below \<open>length h\<close>.

  The transform object (TRS) and the matrix product (MatrixMult) are collaborators that
  are not part of the sources. A TRS is modelled by the matrix that its method
  \<open>getTransformationMatrix\<close> returns; the type \<open>'m\<close> of matrices is left open, and
  \<open>MatrixMult\<close> is a parameter of \<open>draw\<close>. The type \<open>'d\<close> is the type of
  MeshDrawer objects.
\<close>

type_synonym ref = nat

datatype 'm TRS = TRS (getTransformationMatrix: 'm)

record ('d, 'm) SceneNode =
  meshDrawer :: "'d option"
  trs :: "'m TRS"
  parent :: "ref option"
  children :: "ref list"

type_synonym ('d, 'm) heap = "('d, 'm) SceneNode list"

text \<open>\<open>addChild(node) { this.children.push(node); }\<close>, the same in both files.\<close>

definition addChild :: "('d, 'm) heap \<Rightarrow> ref \<Rightarrow> ref \<Rightarrow> ('d, 'm) heap" where
  "addChild h this node = h[this := (h ! this)\<lparr>children := children (h ! this) @ [node]\<rparr>]"

text \<open>
  The constructor of \<open>meshDrawer.js\<close>: the fields are set, then
  \<open>parent?.addChild(this)\<close>. It returns the new heap and the reference of the new object.
\<close>

definition SceneNode_constructor ::
  "('d, 'm) heap \<Rightarrow> 'd option \<Rightarrow> 'm TRS \<Rightarrow> ref option \<Rightarrow> ('d, 'm) heap \<times> ref" where
  "SceneNode_constructor h meshDrawer' trs' parent' =
     (let this = length h;
          h1 = h @ [\<lparr>meshDrawer = meshDrawer', trs = trs', parent = parent', children = []\<rparr>]
      in (case parent' of
            None \<Rightarrow> h1
          | Some p \<Rightarrow> addChild h1 p this,
          this))"

text \<open>
  The constructor of \<open>part_000\<close>: \<open>this.meshDrawer = meshDrawer || null\<close>, and
  \<open>if (this.parent) { this.parent.addChild(this); }\<close> reads the parent back from the
  new object.
\<close>

definition SceneNode_constructor_part_000 ::
  "('d, 'm) heap \<Rightarrow> 'd option \<Rightarrow> 'm TRS \<Rightarrow> ref option \<Rightarrow> ('d, 'm) heap \<times> ref" where
  "SceneNode_constructor_part_000 h meshDrawer' trs' parent' =
     (let this = length h;
          h1 = h @ [\<lparr>meshDrawer = (case meshDrawer' of None \<Rightarrow> None | Some d \<Rightarrow> Some d),
                     trs = trs', parent = parent', children = []\<rparr>]
      in (case parent (h1 ! this) of
            None \<Rightarrow> h1
          | Some p \<Rightarrow> addChild h1 p this,
          this))"

text \<open>
  What \<open>draw\<close> does is observed as the sequence of method calls it makes:
  \<open>NodeDraw n a b c d\<close> is a call of \<open>SceneNode.draw\<close> on the node \<open>n\<close> with the four
  matrices \<open>a b c d\<close> (mvp, modelView, normalMatrix, modelMatrix), and
  \<open>MeshDraw m a b c d\<close> is a call of \<open>MeshDrawer.draw\<close> on the MeshDrawer \<open>m\<close>.
\<close>

datatype ('d, 'm) call =
    NodeDraw ref 'm 'm 'm 'm
  | MeshDraw 'd 'm 'm 'm 'm

text \<open>
  Iterating over the children (\<open>forEach\<close>, \<open>for ... of\<close>) in the order of the array.
  A body that does not return (\<open>None\<close>) ends the iteration.
\<close>

fun forEach :: "('a \<Rightarrow> 'c list option) \<Rightarrow> 'a list \<Rightarrow> 'c list option" where
  "forEach f [] = Some []"
| "forEach f (x # xs) =
     (case f x of
        None \<Rightarrow> None
      | Some a \<Rightarrow> (case forEach f xs of None \<Rightarrow> None | Some b \<Rightarrow> Some (a @ b)))"

text \<open>
  \<open>SceneNode.draw\<close> of \<open>meshDrawer.js\<close>. The recursion follows the children
  references of the heap, which may form a cycle, so the function takes fuel: the number
  of nested calls of \<open>draw\<close> that are allowed. \<open>None\<close> says that the call did not
  return within the fuel (or met a reference outside the heap, which no JavaScript heap
  has). The call stack of the JavaScript engine is taken to be unbounded.
\<close>

fun draw ::
  "('m \<Rightarrow> 'm \<Rightarrow> 'm) \<Rightarrow> nat \<Rightarrow> ('d, 'm) heap \<Rightarrow> ref \<Rightarrow> 'm \<Rightarrow> 'm \<Rightarrow> 'm \<Rightarrow> 'm
     \<Rightarrow> ('d, 'm) call list option" where
  "draw MatrixMult 0 h this mvp modelView normalMatrix modelMatrix = None"
| "draw MatrixMult (Suc fuel) h this mvp modelView normalMatrix modelMatrix =
     (if this < length h then
        (let transformationMatrix = getTransformationMatrix (trs (h ! this));
             transformedMvp = MatrixMult mvp transformationMatrix;
             transformedNormals = MatrixMult normalMatrix transformationMatrix;
             transformedModelView = MatrixMult modelView transformationMatrix;
             transformedModel = MatrixMult modelMatrix transformationMatrix
         in (case forEach (\<lambda>child. draw MatrixMult fuel h child
                     transformedMvp transformedModelView transformedNormals transformedModel)
                   (children (h ! this)) of
               None \<Rightarrow> None
             | Some calls \<Rightarrow>
                 Some (NodeDraw this mvp modelView normalMatrix modelMatrix # calls @
                   (case meshDrawer (h ! this) of
                      None \<Rightarrow> []
                    | Some d \<Rightarrow> [MeshDraw d transformedMvp transformedModelView
                                   transformedNormals transformedModel]))))
      else None)"

text \<open>\<open>SceneNode.draw\<close> of \<open>part_000\<close>: the mesh of the node first, then the children.\<close>

fun draw_part_000 ::
  "('m \<Rightarrow> 'm \<Rightarrow> 'm) \<Rightarrow> nat \<Rightarrow> ('d, 'm) heap \<Rightarrow> ref \<Rightarrow> 'm \<Rightarrow> 'm \<Rightarrow> 'm \<Rightarrow> 'm
     \<Rightarrow> ('d, 'm) call list option" where
  "draw_part_000 MatrixMult 0 h this mvpMatrix modelViewMatrix normalMatrix modelMatrix = None"
| "draw_part_000 MatrixMult (Suc fuel) h this mvpMatrix modelViewMatrix normalMatrix modelMatrix =
     (if this < length h then
        (let nodeTransform = getTransformationMatrix (trs (h ! this));
             updatedMVP = MatrixMult mvpMatrix nodeTransform;
             updatedModelView = MatrixMult modelViewMatrix nodeTransform;
             updatedNormal = MatrixMult normalMatrix nodeTransform;
             updatedModel = MatrixMult modelMatrix nodeTransform
         in (case forEach (\<lambda>child. draw_part_000 MatrixMult fuel h child
                     updatedMVP updatedModelView updatedNormal updatedModel)
                   (children (h ! this)) of
               None \<Rightarrow> None
             | Some calls \<Rightarrow>
                 Some (NodeDraw this mvpMatrix modelViewMatrix normalMatrix modelMatrix #
                   (case meshDrawer (h ! this) of
                      None \<Rightarrow> []
                    | Some d \<Rightarrow> [MeshDraw d updatedMVP updatedModelView
                                   updatedNormal updatedModel]) @ calls)))
      else None)"

subsection \<open>Trees, paths and heaps built by the constructor\<close>

text \<open>
  A finite tree of references. \<open>scene_tree h t\<close> says that \<open>t\<close> is what the children
  references of the heap \<open>h\<close> unfold to from the root of \<open>t\<close>. Such a finite \<open>t\<close>
  exists exactly when no cycle can be reached from the root; when moreover no reference
  occurs twice in \<open>t\<close>, no node is shared and the nodes below the root form a tree.
\<close>

datatype tree = Tree (root: ref) (subtrees: "tree list")

fun scene_tree :: "('d, 'm) heap \<Rightarrow> tree \<Rightarrow> bool" where
  "scene_tree h (Tree r ts) =
     (r < length h \<and> map root ts = children (h ! r) \<and> (\<forall>t \<in> set ts. scene_tree h t))"

fun preorder :: "tree \<Rightarrow> ref list" where
  "preorder (Tree r ts) = r # concat (map preorder ts)"

fun postorder :: "tree \<Rightarrow> ref list" where
  "postorder (Tree r ts) = concat (map postorder ts) @ [r]"

fun tree_height :: "tree \<Rightarrow> nat" where
  "tree_height (Tree r ts) = Suc (foldr max (map tree_height ts) 0)"

text \<open>The nodes and the MeshDrawers that a sequence of calls names, in order.\<close>

fun drawn_nodes :: "('d, 'm) call list \<Rightarrow> ref list" where
  "drawn_nodes [] = []"
| "drawn_nodes (NodeDraw n a b c d # cs) = n # drawn_nodes cs"
| "drawn_nodes (MeshDraw m a b c d # cs) = drawn_nodes cs"

fun drawn_meshes :: "('d, 'm) call list \<Rightarrow> 'd list" where
  "drawn_meshes [] = []"
| "drawn_meshes (NodeDraw n a b c d # cs) = drawn_meshes cs"
| "drawn_meshes (MeshDraw m a b c d # cs) = m # drawn_meshes cs"

text \<open>The MeshDrawers of a list of nodes, skipping the nodes that have none.\<close>

definition meshes_of :: "('d, 'm) heap \<Rightarrow> ref list \<Rightarrow> 'd list" where
  "meshes_of h rs = List.map_filter (\<lambda>r. meshDrawer (h ! r)) rs"

text \<open>
  \<open>path h ps\<close>: the references \<open>ps\<close> lead from the node \<open>hd ps\<close> down to the node
  \<open>last ps\<close>, each one a child of the one before. A node at depth \<open>d\<close> below a root
  is the end of a path of \<open>d + 1\<close> nodes.
\<close>

fun path :: "('d, 'm) heap \<Rightarrow> ref list \<Rightarrow> bool" where
  "path h [] = False"
| "path h [r] = (r < length h)"
| "path h (r # c # ps) = (r < length h \<and> c \<in> set (children (h ! r)) \<and> path h (c # ps))"

text \<open>
  The local transform of a node, and the product of the local transforms along a list of
  nodes, the first one leftmost: \<open>(...((L\<^sub>0 \<times> L\<^sub>1) \<times> L\<^sub>2) ...) \<times> L\<^sub>d\<close>.
\<close>

definition local_transform :: "('d, 'm) heap \<Rightarrow> ref \<Rightarrow> 'm" where
  "local_transform h r = getTransformationMatrix (trs (h ! r))"

fun path_product :: "('m \<Rightarrow> 'm \<Rightarrow> 'm) \<Rightarrow> ('d, 'm) heap \<Rightarrow> ref list \<Rightarrow> 'm option" where
  "path_product MatrixMult h [] = None"
| "path_product MatrixMult h (r # ps) =
     Some (foldl MatrixMult (local_transform h r) (map (local_transform h) ps))"

text \<open>
  The heaps that are built through the constructors only (of either file), each call
  with no parent or with a node that exists already.
\<close>

inductive constructed :: "('d, 'm) heap \<Rightarrow> bool" where
  empty: "constructed []"
| new_root: "constructed h \<Longrightarrow> constructed (fst (SceneNode_constructor h m t None))"
| new_child: "constructed h \<Longrightarrow> p < length h \<Longrightarrow>
     constructed (fst (SceneNode_constructor h m t (Some p)))"
| new_root_part_000: "constructed h \<Longrightarrow>
     constructed (fst (SceneNode_constructor_part_000 h m t None))"
| new_child_part_000: "constructed h \<Longrightarrow> p < length h \<Longrightarrow>
     constructed (fst (SceneNode_constructor_part_000 h m t (Some p)))"

section \<open>Mesh drawing (class MeshDrawer)\<close>

text \<open>
  The graphics context \<open>gl\<close> is a collaborator; what a method does to it is observed as
  the sequence of the calls it makes, as a recording context would show them. Programs,
  buffers, textures and uniform locations are handles; attribute locations are integers.
  A JavaScript number is a double; the finite doubles are rationals, and the numbers of
  the model are rationals. The conversion of the vertex data by
  \<open>new Float32Array(data)\<close> is not modelled: the data is recorded as it is passed.
\<close>

type_synonym handle = nat

datatype gl_enum =
    TEXTURE_2D | RGB | UNSIGNED_BYTE | TEXTURE_MIN_FILTER | LINEAR | TEXTURE_WRAP_S
  | TEXTURE_WRAP_T | CLAMP_TO_EDGE | TEXTURE0 | ARRAY_BUFFER | STATIC_DRAW | FLOAT | TRIANGLES

record HTMLImageElement =
  width :: nat
  height :: nat

datatype ('m, 'a) gl_call =
    useProgram handle
  | bindTexture gl_enum handle
  | uniformMatrix4fv handle bool 'm
  | uniform1i handle int
  | bindBuffer gl_enum handle
  | bufferData gl_enum "'a list" gl_enum
  | vertexAttribPointer int nat gl_enum bool nat nat
  | enableVertexAttribArray int
  | drawArrays gl_enum nat rat
  | texImage2D gl_enum nat gl_enum gl_enum gl_enum HTMLImageElement
  | generateMipmap gl_enum
  | texParameteri gl_enum gl_enum gl_enum
  | activeTexture gl_enum

record 'a attribs =
  position :: 'a
  normal :: 'a
  texCoord :: 'a

record uniforms =
  mvp_loc :: handle
  mv_loc :: handle
  normalMV_loc :: handle
  modelMatrix_loc :: handle
  isLightSource_loc :: handle
  tex_loc :: handle

record MeshDrawer =
  prog :: handle
  attribLocations :: "int attribs"
  uniformLocations :: uniforms
  buffers :: "handle attribs"
  texture :: handle
  numTriangles :: rat
  isLightSource :: bool

text \<open>
  The constructor. Its first five arguments are what the graphics context returns for
  \<open>InitShaderProgram\<close>, \<open>getAttribLocation\<close>, \<open>getUniformLocation\<close>,
  \<open>createBuffer\<close> and \<open>createTexture\<close>.
\<close>

definition MeshDrawer_constructor ::
  "handle \<Rightarrow> int attribs \<Rightarrow> uniforms \<Rightarrow> handle attribs \<Rightarrow> handle \<Rightarrow> bool \<Rightarrow> MeshDrawer" where
  "MeshDrawer_constructor prog' attribLocations' uniformLocations' buffers' texture'
       isLightSource' =
     \<lparr>prog = prog', attribLocations = attribLocations', uniformLocations = uniformLocations',
      buffers = buffers', texture = texture', numTriangles = 0,
      isLightSource = isLightSource'\<rparr>"

definition bindAndBufferData :: "handle \<Rightarrow> 'a list \<Rightarrow> ('m, 'a) gl_call list" where
  "bindAndBufferData buffer data =
     [bindBuffer ARRAY_BUFFER buffer, bufferData ARRAY_BUFFER data STATIC_DRAW]"

definition enableVertexAttrib :: "int \<Rightarrow> handle \<Rightarrow> nat \<Rightarrow> ('m, 'a) gl_call list" where
  "enableVertexAttrib location buffer size' =
     [bindBuffer ARRAY_BUFFER buffer,
      vertexAttribPointer location size' FLOAT False 0 0,
      enableVertexAttribArray location]"

text \<open>
  The JavaScript division \<open>a / b\<close> of two natural numbers, as in
  \<open>vertPos.length / 3\<close>: the double nearest to the quotient, a tie going to the even
  mantissa (IEEE 754 division is correctly rounded). \<open>binade_shift a b\<close> is the number
  \<open>k\<close> of doublings that bring the quotient into the range of the 53-bit mantissas,
  \<open>2 ^ 52 \<le> a * 2 ^ k / b < 2 ^ 53\<close>; the mantissa is that number rounded to an integer and
  the result is the mantissa divided by \<open>2 ^ k\<close>. This is the JavaScript quotient when
  \<open>0 < b\<close> and \<open>a < b * 2 ^ 53\<close>, which holds for the length of every array and
  \<open>b = 3\<close>.
\<close>

function binade_shift :: "nat \<Rightarrow> nat \<Rightarrow> nat" where
  "binade_shift a b =
     (if a = 0 \<or> b * 2 ^ 52 \<le> a then 0 else Suc (binade_shift (2 * a) b))"
  by pat_completeness auto
termination
  by (relation "measure (\<lambda>(a, b). b * 2 ^ 52 - a)") auto

definition js_divide :: "nat \<Rightarrow> nat \<Rightarrow> rat" where
  "js_divide a b =
     (let k = binade_shift a b;
          q = (a * 2 ^ k) div b;
          r = (a * 2 ^ k) mod b;
          m = (if 2 * r < b then q
               else if b < 2 * r then q + 1
               else if even q then q else q + 1)
      in of_nat m / 2 ^ k)"

text \<open>\<open>setMesh\<close> returns the updated object and the calls made.\<close>

definition setMesh ::
  "MeshDrawer \<Rightarrow> 'a list \<Rightarrow> 'a list \<Rightarrow> 'a list \<Rightarrow> MeshDrawer \<times> ('m, 'a) gl_call list" where
  "setMesh this vertPos texCoords normals =
     (this\<lparr>numTriangles := js_divide (length vertPos) 3\<rparr>,
      bindAndBufferData (position (buffers this)) vertPos @
      bindAndBufferData (normal (buffers this)) normals @
      bindAndBufferData (texCoord (buffers this)) texCoords)"

definition MeshDrawer_draw ::
  "MeshDrawer \<Rightarrow> 'm \<Rightarrow> 'm \<Rightarrow> 'm \<Rightarrow> 'm \<Rightarrow> ('m, 'a) gl_call list" where
  "MeshDrawer_draw this matrixMVP matrixMV matrixNormal modelMatrix =
     [useProgram (prog this),
      bindTexture TEXTURE_2D (texture this),
      uniformMatrix4fv (mvp_loc (uniformLocations this)) False matrixMVP,
      uniformMatrix4fv (mv_loc (uniformLocations this)) False matrixMV,
      uniformMatrix4fv (normalMV_loc (uniformLocations this)) False matrixNormal,
      uniformMatrix4fv (modelMatrix_loc (uniformLocations this)) False modelMatrix,
      uniform1i (isLightSource_loc (uniformLocations this))
        (if isLightSource this then 1 else 0)] @
     enableVertexAttrib (position (attribLocations this)) (position (buffers this)) 3 @
     enableVertexAttrib (normal (attribLocations this)) (normal (buffers this)) 3 @
     enableVertexAttrib (texCoord (attribLocations this)) (texCoord (buffers this)) 2 @
     [drawArrays TRIANGLES 0 (numTriangles this)]"

text \<open>
  \<open>setTexture\<close> of the first class of \<open>meshDrawer.js\<close>. The helper \<open>isPowerOf2\<close> is
  not part of the sources and is a parameter.
\<close>

definition setTexture ::
  "(nat \<Rightarrow> bool) \<Rightarrow> MeshDrawer \<Rightarrow> HTMLImageElement \<Rightarrow> ('m, 'a) gl_call list" where
  "setTexture isPowerOf2 this img =
     [bindTexture TEXTURE_2D (texture this),
      texImage2D TEXTURE_2D 0 RGB RGB UNSIGNED_BYTE img] @
     (if isPowerOf2 (width img) \<and> isPowerOf2 (height img) then
        [generateMipmap TEXTURE_2D]
      else
        [texParameteri TEXTURE_2D TEXTURE_MIN_FILTER LINEAR,
         texParameteri TEXTURE_2D TEXTURE_WRAP_S CLAMP_TO_EDGE,
         texParameteri TEXTURE_2D TEXTURE_WRAP_T CLAMP_TO_EDGE]) @
     [useProgram (prog this),
      activeTexture TEXTURE0,
      bindTexture TEXTURE_2D (texture this),
      uniform1i (tex_loc (uniformLocations this)) 0]"

text \<open>
  \<open>setTexture\<close> of the second class of \<open>meshDrawer.js\<close> (fields \<open>program\<close> and
  \<open>uniforms.textureSampler\<close> there): the same, without the call of \<open>useProgram\<close>.
  Its \<open>setMesh\<close> and \<open>draw\<close> are those of the first class with other names.
\<close>

definition setTexture_second ::
  "(nat \<Rightarrow> bool) \<Rightarrow> MeshDrawer \<Rightarrow> HTMLImageElement \<Rightarrow> ('m, 'a) gl_call list" where
  "setTexture_second isPowerOf2 this img =
     [bindTexture TEXTURE_2D (texture this),
      texImage2D TEXTURE_2D 0 RGB RGB UNSIGNED_BYTE img] @
     (if isPowerOf2 (width img) \<and> isPowerOf2 (height img) then
        [generateMipmap TEXTURE_2D]
      else
        [texParameteri TEXTURE_2D TEXTURE_MIN_FILTER LINEAR,
         texParameteri TEXTURE_2D TEXTURE_WRAP_S CLAMP_TO_EDGE,
         texParameteri TEXTURE_2D TEXTURE_WRAP_T CLAMP_TO_EDGE]) @
     [activeTexture TEXTURE0,
      bindTexture TEXTURE_2D (texture this),
      uniform1i (tex_loc (uniformLocations this)) 0]"

text \<open>
  Modelled from the spec: the helper \<open>isPowerOf2\<close> is missing from the sources; the
  specification says of it only that it tells whether a dimension is a power of two.
\<close>

fun isPowerOf2 :: "nat \<Rightarrow> bool" where
  "isPowerOf2 n =
     (if n = 0 then False
      else if n = 1 then True
      else n mod 2 = 0 \<and> isPowerOf2 (n div 2))"

section \<open>Auxiliary notions for the properties\<close>

text \<open>The calls of \<open>SceneNode.draw\<close> among a sequence of calls.\<close>

definition node_calls :: "('d, 'm) call list \<Rightarrow> ('d, 'm) call list" where
  "node_calls cs =
     filter (\<lambda>x. case x of NodeDraw n a b c d \<Rightarrow> True | MeshDraw m a b c d \<Rightarrow> False) cs"


text \<open>
  Two sequences of calls hold the same calls, each as often as the other, and the same
  calls of \<open>SceneNode.draw\<close> in the same order.
\<close>

definition same_calls :: "('d, 'm) call list \<Rightarrow> ('d, 'm) call list \<Rightarrow> bool" where
  "same_calls xs ys = (mset xs = mset ys \<and> node_calls xs = node_calls ys)"


text \<open>
  Parent and children references agree: every child of a node is a younger node whose
  parent is that node, and every node with a parent is exactly once in the children list
  of that parent.
\<close>

definition family_inv :: "('d, 'm) heap \<Rightarrow> bool" where
  "family_inv h =
     (\<forall>n < length h.
        (\<forall>c \<in> set (children (h ! n)). n < c \<and> c < length h \<and> parent (h ! c) = Some n) \<and>
        (\<forall>p. parent (h ! n) = Some p \<longrightarrow> p < length h \<and> count_list (children (h ! p)) n = 1))"


text \<open>
  A small scene, built by the constructors of both files: a sun with an earth and a mars,
  the earth with a moon; mars has no MeshDrawer. Matrices are instantiated by lists of
  names and \<open>MatrixMult\<close> by list append (the free monoid), so that a product shows
  its factors in order.
\<close>

definition example_scene :: "(string, string list) heap" where
  "example_scene =
     (let (h, sun) = SceneNode_constructor [] (Some ''sunMesh'') (TRS [''S'']) None;
          (h, earth) = SceneNode_constructor h (Some ''earthMesh'') (TRS [''E'']) (Some sun);
          (h, moon) = SceneNode_constructor_part_000 h (Some ''moonMesh'') (TRS [''m'']) (Some earth);
          (h, mars) = SceneNode_constructor_part_000 h None (TRS [''M'']) (Some sun)
      in h)"

text \<open>
  Adding a new leaf \<open>k\<close> below every occurrence of the node \<open>p\<close> in a tree: what the
  constructor with a parent does to the trees of a heap.
\<close>

fun add_leaf :: "ref \<Rightarrow> ref \<Rightarrow> tree \<Rightarrow> tree" where
  "add_leaf p k (Tree r ts) =
     Tree r (map (add_leaf p k) ts @ (if r = p then [Tree k []] else []))"

section \<open>Lemmas\<close>

subsection \<open>Iterating over the children\<close>

text \<open>
  \<open>forEach\<close> returns when the body returns for every element, and then its calls are
  those of the elements, one after the other.
\<close>

lemma forEach_Some_iff:
  "forEach f xs = Some calls \<longleftrightarrow> (\<exists>below. map f xs = map Some below \<and> calls = concat below)"
proof (induction xs arbitrary: calls)
  case Nil
  show ?case by auto
next
  case (Cons x xs)
  show ?case
  proof
    assume "forEach f (x # xs) = Some calls"
    then obtain a b where a: "f x = Some a" and b: "forEach f xs = Some b" and c: "calls = a @ b"
      by (auto split: option.splits)
    from b Cons.IH obtain bs where "map f xs = map Some bs" "b = concat bs" by blast
    with a c have "map f (x # xs) = map Some (a # bs) \<and> calls = concat (a # bs)" by simp
    then show "\<exists>below. map f (x # xs) = map Some below \<and> calls = concat below" by blast
  next
    assume "\<exists>below. map f (x # xs) = map Some below \<and> calls = concat below"
    then obtain below where m: "map f (x # xs) = map Some below" and c: "calls = concat below"
      by blast
    from m obtain a bs where below: "below = a # bs" by (cases below) auto
    with m have a: "f x = Some a" and bs: "map f xs = map Some bs" by auto
    from bs Cons.IH have "forEach f xs = Some (concat bs)" by blast
    with a c below show "forEach f (x # xs) = Some calls" by simp
  qed
qed

lemma forEach_None_iff: "forEach f xs = None \<longleftrightarrow> (\<exists>x \<in> set xs. f x = None)"
  by (induction xs) (auto split: option.splits)

lemma forEach_cong:
  "(\<And>x. x \<in> set xs \<Longrightarrow> f x = g x) \<Longrightarrow> forEach f xs = forEach g xs"
  by (induction xs) (auto split: option.splits)

lemma forEach_case_Some:
  "(case forEach f xs of None \<Rightarrow> None | Some calls \<Rightarrow> Some (g calls)) = Some res \<longleftrightarrow>
   (\<exists>below. map f xs = map Some below \<and> res = g (concat below))"
proof
  assume "(case forEach f xs of None \<Rightarrow> None | Some calls \<Rightarrow> Some (g calls)) = Some res"
  then obtain calls where "forEach f xs = Some calls" "res = g calls"
    by (auto split: option.splits)
  then show "\<exists>below. map f xs = map Some below \<and> res = g (concat below)"
    by (auto simp: forEach_Some_iff)
next
  assume "\<exists>below. map f xs = map Some below \<and> res = g (concat below)"
  then obtain below where b: "map f xs = map Some below" and r: "res = g (concat below)"
    by blast
  from b have "forEach f xs = Some (concat below)"
    by (auto simp: forEach_Some_iff)
  with r show "(case forEach f xs of None \<Rightarrow> None | Some calls \<Rightarrow> Some (g calls)) = Some res"
    by simp
qed

lemma forEach_rel:
  assumes "\<And>x. x \<in> set xs \<Longrightarrow> rel_option R (f x) (g x)"
    and "R [] []"
    and "\<And>a b a' b'. R a a' \<Longrightarrow> R b b' \<Longrightarrow> R (a @ b) (a' @ b')"
  shows "rel_option R (forEach f xs) (forEach g xs)"
  using assms(1)
proof (induction xs)
  case Nil
  show ?case by (simp add: assms(2))
next
  case (Cons x xs)
  have 1: "rel_option R (f x) (g x)" using Cons.prems by simp
  have 2: "rel_option R (forEach f xs) (forEach g xs)" using Cons by simp
  show ?case
  proof (cases "f x")
    case None
    with 1 show ?thesis by (cases "g x") auto
  next
    case fx: (Some u)
    with 1 obtain u' where gx: "g x = Some u'" and u: "R u u'" by (cases "g x") auto
    show ?thesis
    proof (cases "forEach f xs")
      case None
      with 2 have "forEach g xs = None" by (cases "forEach g xs") auto
      with None fx gx show ?thesis by simp
    next
      case (Some v)
      with 2 obtain v' where "forEach g xs = Some v'" and "R v v'"
        by (cases "forEach g xs") auto
      with Some fx gx u show ?thesis by (simp add: assms(3))
    qed
  qed
qed

lemma forEach_map_option:
  assumes "g [] = []" and "\<And>a b. g (a @ b) = g a @ g b"
  shows "forEach (\<lambda>x. map_option g (f x)) xs = map_option g (forEach f xs)"
  by (induction xs) (auto simp: assms split: option.splits)

lemma map_Some_nth:
  "map f xs = map Some ys \<Longrightarrow> x \<in> set xs \<Longrightarrow> \<exists>y \<in> set ys. f x = Some y"
proof (induction xs arbitrary: ys)
  case Nil
  then show ?case by simp
next
  case (Cons z zs)
  then show ?case by (cases ys) auto
qed

lemma map_Some_set:
  "map f xs = map Some ys \<Longrightarrow> y \<in> set ys \<Longrightarrow> \<exists>x \<in> set xs. f x = Some y"
proof (induction xs arbitrary: ys)
  case Nil
  then show ?case by simp
next
  case (Cons z zs)
  then show ?case by (cases ys) auto
qed

lemma map_Some_index:
  "map f xs = map Some ys \<Longrightarrow> length ys = length xs \<and> (\<forall>i < length ys. f (xs ! i) = Some (ys ! i))"
  by (metis length_map nth_map)

subsection \<open>One call of draw\<close>

text \<open>
  More fuel does not change a result. A call that returns has made the call on the node,
  the calls of the children and the call of the MeshDrawer, in the order of the file.
\<close>

lemma draw_fuel_mono:
  "draw MatrixMult n h r a b c d = Some calls \<Longrightarrow> n \<le> k \<Longrightarrow>
   draw MatrixMult k h r a b c d = Some calls"
proof (induction n arbitrary: k r a b c d calls)
  case 0
  then show ?case by simp
next
  case (Suc n)
  from Suc.prems(2) obtain k' where k: "k = Suc k'" and le: "n \<le> k'"
    by (cases k) auto
  define L where "L = getTransformationMatrix (trs (h ! r))"
  define f where "f = (\<lambda>j child. draw MatrixMult j h child (MatrixMult a L) (MatrixMult b L)
      (MatrixMult c L) (MatrixMult d L))"
  from Suc.prems(1) have r: "r < length h" by (simp split: if_splits)
  from Suc.prems(1) r obtain below where
    below: "forEach (f n) (children (h ! r)) = Some below"
    by (auto simp: Let_def f_def L_def split: option.splits)
  have "forEach (f k') (children (h ! r)) = forEach (f n) (children (h ! r))"
  proof (rule forEach_cong)
    fix x assume "x \<in> set (children (h ! r))"
    with below obtain cs where "f n x = Some cs"
      by (cases "f n x") (auto simp: forEach_None_iff dest: forEach_None_iff[THEN iffD2, OF bexI])
    with Suc.IH[OF _ le] show "f k' x = f n x" by (simp add: f_def)
  qed
  with Suc.prems(1) below r show ?case
    by (simp add: k Let_def f_def L_def)
qed

lemma draw_Suc_Some:
  "draw MatrixMult (Suc fuel) h N a b c d = Some calls \<longleftrightarrow>
   N < length h \<and>
   (\<exists>below.
      map (\<lambda>child. draw MatrixMult fuel h child
             (MatrixMult a (getTransformationMatrix (trs (h ! N))))
             (MatrixMult b (getTransformationMatrix (trs (h ! N))))
             (MatrixMult c (getTransformationMatrix (trs (h ! N))))
             (MatrixMult d (getTransformationMatrix (trs (h ! N)))))
          (children (h ! N)) = map Some below \<and>
      calls = NodeDraw N a b c d # concat below @
        (case meshDrawer (h ! N) of
           None \<Rightarrow> []
         | Some m \<Rightarrow> [MeshDraw m
             (MatrixMult a (getTransformationMatrix (trs (h ! N))))
             (MatrixMult b (getTransformationMatrix (trs (h ! N))))
             (MatrixMult c (getTransformationMatrix (trs (h ! N))))
             (MatrixMult d (getTransformationMatrix (trs (h ! N))))]))"
  by (simp add: Let_def forEach_case_Some)

lemma draw_part_000_Suc_Some:
  "draw_part_000 MatrixMult (Suc fuel) h N a b c d = Some calls \<longleftrightarrow>
   N < length h \<and>
   (\<exists>below.
      map (\<lambda>child. draw_part_000 MatrixMult fuel h child
             (MatrixMult a (getTransformationMatrix (trs (h ! N))))
             (MatrixMult b (getTransformationMatrix (trs (h ! N))))
             (MatrixMult c (getTransformationMatrix (trs (h ! N))))
             (MatrixMult d (getTransformationMatrix (trs (h ! N)))))
          (children (h ! N)) = map Some below \<and>
      calls = NodeDraw N a b c d #
        (case meshDrawer (h ! N) of
           None \<Rightarrow> []
         | Some m \<Rightarrow> [MeshDraw m
             (MatrixMult a (getTransformationMatrix (trs (h ! N))))
             (MatrixMult b (getTransformationMatrix (trs (h ! N))))
             (MatrixMult c (getTransformationMatrix (trs (h ! N))))
             (MatrixMult d (getTransformationMatrix (trs (h ! N))))]) @ concat below)"
  by (simp add: Let_def forEach_case_Some)

declare draw.simps(2) [simp del] draw_part_000.simps(2) [simp del]

lemma draw_Some_hd:
  "draw MatrixMult fuel h r a b c d = Some calls \<Longrightarrow> \<exists>rest. calls = NodeDraw r a b c d # rest"
  by (cases fuel) (auto simp: draw_Suc_Some)

lemma draw_part_000_Some_hd:
  "draw_part_000 MatrixMult fuel h r a b c d = Some calls \<Longrightarrow>
   \<exists>rest. calls = NodeDraw r a b c d # rest"
  by (cases fuel) (auto simp: draw_part_000_Suc_Some)

subsection \<open>Sequences of calls\<close>

lemma drawn_nodes_append: "drawn_nodes (xs @ ys) = drawn_nodes xs @ drawn_nodes ys"
  by (induction xs rule: drawn_nodes.induct) auto

lemma drawn_meshes_append: "drawn_meshes (xs @ ys) = drawn_meshes xs @ drawn_meshes ys"
  by (induction xs rule: drawn_meshes.induct) auto

lemma drawn_nodes_concat: "drawn_nodes (concat xss) = concat (map drawn_nodes xss)"
  by (induction xss) (auto simp: drawn_nodes_append)

lemma drawn_meshes_concat: "drawn_meshes (concat xss) = concat (map drawn_meshes xss)"
  by (induction xss) (auto simp: drawn_meshes_append)

lemma meshes_of_append: "meshes_of h (xs @ ys) = meshes_of h xs @ meshes_of h ys"
  by (simp add: meshes_of_def map_filter_def)

lemma meshes_of_concat: "meshes_of h (concat xss) = concat (map (meshes_of h) xss)"
  by (induction xss) (auto simp: meshes_of_append meshes_of_def map_filter_def)

lemma meshes_of_single:
  "meshes_of h [r] = (case meshDrawer (h ! r) of None \<Rightarrow> [] | Some m \<Rightarrow> [m])"
  by (simp add: meshes_of_def map_filter_def split: option.splits)

lemma same_calls_Nil: "same_calls [] []"
  by (simp add: same_calls_def node_calls_def)

lemma same_calls_append:
  "same_calls a a' \<Longrightarrow> same_calls b b' \<Longrightarrow> same_calls (a @ b) (a' @ b')"
  by (simp add: same_calls_def node_calls_def)

lemma count_list_concat:
  "count_list (concat xss) x = sum_list (map (\<lambda>xs. count_list xs x) xss)"
  by (induction xss) auto

lemma count_list_distinct: "distinct xs \<Longrightarrow> x \<in> set xs \<Longrightarrow> count_list xs x = 1"
  by (induction xs) auto

lemma distinct_iff_count_list: "distinct xs \<longleftrightarrow> (\<forall>x. count_list xs x \<le> 1)"
proof (induction xs)
  case Nil
  show ?case by simp
next
  case (Cons a xs)
  show ?case
  proof
    assume d: "distinct (a # xs)"
    then have "count_list xs a = 0" by (simp add: count_list_0_iff)
    with d Cons show "\<forall>x. count_list (a # xs) x \<le> 1" by auto
  next
    assume c: "\<forall>x. count_list (a # xs) x \<le> 1"
    then have "count_list (a # xs) a \<le> 1" by blast
    then have "count_list xs a = 0" by simp
    then have a: "a \<notin> set xs" by (simp add: count_list_0_iff)
    have "count_list xs x \<le> 1" for x
      using c[rule_format, of x] by (simp split: if_splits)
    with Cons a show "distinct (a # xs)" by simp
  qed
qed

lemma count_list_meshes_of:
  "distinct rs \<Longrightarrow>
   count_list (meshes_of h rs) m = card {n \<in> set rs. meshDrawer (h ! n) = Some m}"
proof (induction rs)
  case Nil
  show ?case by (simp add: meshes_of_def map_filter_def)
next
  case (Cons r rs)
  have split: "{n \<in> set (r # rs). meshDrawer (h ! n) = Some m} =
      (if meshDrawer (h ! r) = Some m then insert r {n \<in> set rs. meshDrawer (h ! n) = Some m}
       else {n \<in> set rs. meshDrawer (h ! n) = Some m})"
    by auto
  have fin: "finite {n \<in> set rs. meshDrawer (h ! n) = Some m}" by simp
  have notin: "r \<notin> {n \<in> set rs. meshDrawer (h ! n) = Some m}" using Cons.prems by simp
  have "meshes_of h (r # rs) = meshes_of h [r] @ meshes_of h rs"
    using meshes_of_append[of h "[r]" rs] by simp
  then have "count_list (meshes_of h (r # rs)) m =
      (if meshDrawer (h ! r) = Some m then 1 else 0) + count_list (meshes_of h rs) m"
    by (simp add: meshes_of_single split: option.splits)
  also have "count_list (meshes_of h rs) m = card {n \<in> set rs. meshDrawer (h ! n) = Some m}"
    using Cons by simp
  finally show ?case
    unfolding split using card_insert_disjoint[OF fin notin] by simp
qed

subsection \<open>Drawing a tree\<close>

text \<open>
  When the nodes below a node unfold to a finite tree, \<open>draw\<close> returns with fuel for the
  height of the tree: it visits the nodes in preorder, and draws the meshes in postorder
  (\<open>meshDrawer.js\<close>) or in preorder (\<open>part_000\<close>).
\<close>

lemma tree_height_le_foldr:
  "t \<in> set ts \<Longrightarrow> tree_height t \<le> foldr max (map tree_height ts) 0"
  by (induction ts) (auto simp: max_def)

lemma mset_postorder: "mset (postorder t) = mset (preorder t)"
proof (induction t)
  case (Tree r ts)
  then have "map (\<lambda>t. mset (postorder t)) ts = map (\<lambda>t. mset (preorder t)) ts"
    by simp
  then have "sum_list (map (\<lambda>t. mset (postorder t)) ts) =
      sum_list (map (\<lambda>t. mset (preorder t)) ts)"
    by (rule arg_cong)
  then show ?case by (simp add: mset_concat comp_def)
qed

lemma draw_scene_tree:
  "scene_tree h t \<Longrightarrow> tree_height t \<le> fuel \<Longrightarrow>
   \<exists>calls. draw MatrixMult fuel h (root t) a b c d = Some calls \<and>
     drawn_nodes calls = preorder t \<and>
     drawn_meshes calls = meshes_of h (postorder t)"
proof (induction t arbitrary: fuel a b c d)
  case (Tree r ts)
  from Tree.prems(2) obtain n where fuel: "fuel = Suc n"
    and n: "foldr max (map tree_height ts) 0 \<le> n"
    by (cases fuel) auto
  from Tree.prems(1) have r: "r < length h" and cs: "children (h ! r) = map root ts"
    and sub: "\<And>t. t \<in> set ts \<Longrightarrow> scene_tree h t"
    by auto
  define L where "L = getTransformationMatrix (trs (h ! r))"
  define f where "f = (\<lambda>child. draw MatrixMult n h child (MatrixMult a L) (MatrixMult b L)
      (MatrixMult c L) (MatrixMult d L))"
  define below where "below = map (\<lambda>t. the (f (root t))) ts"
  have each: "f (root t) = Some (the (f (root t))) \<and>
      drawn_nodes (the (f (root t))) = preorder t \<and>
      drawn_meshes (the (f (root t))) = meshes_of h (postorder t)" if "t \<in> set ts" for t
  proof -
    from that n have "tree_height t \<le> n"
      using tree_height_le_foldr[of t ts] by simp
    from Tree.IH[OF that sub[OF that] this, of "MatrixMult a L" "MatrixMult b L"
        "MatrixMult c L" "MatrixMult d L"]
    show ?thesis by (auto simp: f_def)
  qed
  have m: "map f (children (h ! r)) = map Some below"
    using each by (simp add: cs below_def)
  have dn: "map drawn_nodes below = map preorder ts"
    using each by (simp add: below_def)
  have dm: "map drawn_meshes below = map (\<lambda>t. meshes_of h (postorder t)) ts"
    using each by (simp add: below_def)
  define calls where "calls = NodeDraw r a b c d # concat below @
     (case meshDrawer (h ! r) of None \<Rightarrow> []
      | Some m \<Rightarrow> [MeshDraw m (MatrixMult a L) (MatrixMult b L) (MatrixMult c L) (MatrixMult d L)])"
  have "draw MatrixMult fuel h r a b c d = Some calls"
    unfolding fuel draw_Suc_Some calls_def L_def using r m[unfolded f_def L_def] by auto
  moreover have "drawn_nodes calls = preorder (Tree r ts)"
    by (simp add: calls_def drawn_nodes_append drawn_nodes_concat dn split: option.splits)
  moreover have "drawn_meshes calls = meshes_of h (postorder (Tree r ts))"
    by (simp add: calls_def drawn_meshes_append drawn_meshes_concat dm meshes_of_append
        meshes_of_concat meshes_of_single comp_def split: option.splits)
  ultimately show ?case by simp
qed

lemma draw_part_000_scene_tree:
  "scene_tree h t \<Longrightarrow> tree_height t \<le> fuel \<Longrightarrow>
   \<exists>calls. draw_part_000 MatrixMult fuel h (root t) a b c d = Some calls \<and>
     drawn_nodes calls = preorder t \<and>
     drawn_meshes calls = meshes_of h (preorder t)"
proof (induction t arbitrary: fuel a b c d)
  case (Tree r ts)
  from Tree.prems(2) obtain n where fuel: "fuel = Suc n"
    and n: "foldr max (map tree_height ts) 0 \<le> n"
    by (cases fuel) auto
  from Tree.prems(1) have r: "r < length h" and cs: "children (h ! r) = map root ts"
    and sub: "\<And>t. t \<in> set ts \<Longrightarrow> scene_tree h t"
    by auto
  define L where "L = getTransformationMatrix (trs (h ! r))"
  define f where "f = (\<lambda>child. draw_part_000 MatrixMult n h child (MatrixMult a L)
      (MatrixMult b L) (MatrixMult c L) (MatrixMult d L))"
  define below where "below = map (\<lambda>t. the (f (root t))) ts"
  have each: "f (root t) = Some (the (f (root t))) \<and>
      drawn_nodes (the (f (root t))) = preorder t \<and>
      drawn_meshes (the (f (root t))) = meshes_of h (preorder t)" if "t \<in> set ts" for t
  proof -
    from that n have "tree_height t \<le> n"
      using tree_height_le_foldr[of t ts] by simp
    from Tree.IH[OF that sub[OF that] this, of "MatrixMult a L" "MatrixMult b L"
        "MatrixMult c L" "MatrixMult d L"]
    show ?thesis by (auto simp: f_def)
  qed
  have m: "map f (children (h ! r)) = map Some below"
    using each by (simp add: cs below_def)
  have dn: "map drawn_nodes below = map preorder ts"
    using each by (simp add: below_def)
  have dm: "map drawn_meshes below = map (\<lambda>t. meshes_of h (preorder t)) ts"
    using each by (simp add: below_def)
  define calls where "calls = NodeDraw r a b c d #
     (case meshDrawer (h ! r) of None \<Rightarrow> []
      | Some m \<Rightarrow> [MeshDraw m (MatrixMult a L) (MatrixMult b L) (MatrixMult c L) (MatrixMult d L)])
     @ concat below"
  have "draw_part_000 MatrixMult fuel h r a b c d = Some calls"
    unfolding fuel draw_part_000_Suc_Some calls_def L_def using r m[unfolded f_def L_def] by auto
  moreover have "drawn_nodes calls = preorder (Tree r ts)"
    by (simp add: calls_def drawn_nodes_append drawn_nodes_concat dn split: option.splits)
  moreover have "drawn_meshes calls = meshes_of h (preorder (Tree r ts))"
    using meshes_of_append[of h "[r]" "concat (map preorder ts)"]
    by (simp add: calls_def drawn_meshes_append drawn_meshes_concat dm
        meshes_of_concat meshes_of_single comp_def split: option.splits)
  ultimately show ?case by simp
qed

subsection \<open>The two draw functions\<close>

text \<open>
  On every heap and with every fuel, both functions return or neither does, and they make
  the same calls. Removing the MeshDrawers removes the calls of \<open>MeshDrawer.draw\<close> and
  nothing else.
\<close>

lemma draw_same_calls:
  "rel_option same_calls (draw MatrixMult fuel h r a b c d)
     (draw_part_000 MatrixMult fuel h r a b c d)"
proof (induction fuel arbitrary: r a b c d)
  case 0
  show ?case by simp
next
  case (Suc n)
  define L where "L = getTransformationMatrix (trs (h ! r))"
  define f where "f = (\<lambda>child. draw MatrixMult n h child (MatrixMult a L) (MatrixMult b L)
      (MatrixMult c L) (MatrixMult d L))"
  define g where "g = (\<lambda>child. draw_part_000 MatrixMult n h child (MatrixMult a L)
      (MatrixMult b L) (MatrixMult c L) (MatrixMult d L))"
  have "rel_option same_calls (forEach f (children (h ! r))) (forEach g (children (h ! r)))"
    by (rule forEach_rel) (auto simp: f_def g_def Suc.IH same_calls_Nil same_calls_append)
  then show ?case
    unfolding draw.simps draw_part_000.simps Let_def f_def g_def L_def
    by (cases "meshDrawer (h ! r)")
       (auto simp: option.rel_sel same_calls_def node_calls_def split: option.splits)
qed

lemma draw_part_000_same_set:
  assumes "draw MatrixMult fuel h r a b c d = Some calls"
  shows "\<exists>calls'. draw_part_000 MatrixMult fuel h r a b c d = Some calls' \<and>
           mset calls' = mset calls \<and> node_calls calls' = node_calls calls"
  using draw_same_calls[of MatrixMult fuel h r a b c d] assms
  by (cases "draw_part_000 MatrixMult fuel h r a b c d") (auto simp: same_calls_def)

lemma draw_without_meshes:
  "draw MatrixMult fuel (map (\<lambda>n. n\<lparr>meshDrawer := None\<rparr>) h) N a b c d =
     map_option node_calls (draw MatrixMult fuel h N a b c d)"
proof (induction fuel arbitrary: N a b c d)
  case 0
  show ?case by simp
next
  case (Suc n)
  show ?case
  proof (cases "N < length h")
    case False
    then show ?thesis by (simp add: draw.simps)
  next
    case True
    define L where "L = getTransformationMatrix (trs (h ! N))"
    define f where "f = (\<lambda>child. draw MatrixMult n h child (MatrixMult a L) (MatrixMult b L)
        (MatrixMult c L) (MatrixMult d L))"
    have "forEach (\<lambda>child. draw MatrixMult n (map (\<lambda>n. n\<lparr>meshDrawer := None\<rparr>) h) child
              (MatrixMult a L) (MatrixMult b L) (MatrixMult c L) (MatrixMult d L))
            (children (h ! N)) =
          forEach (\<lambda>child. map_option node_calls (f child)) (children (h ! N))"
      by (simp add: Suc.IH f_def)
    also have "\<dots> = map_option node_calls (forEach f (children (h ! N)))"
      by (rule forEach_map_option) (simp_all add: node_calls_def)
    finally show ?thesis
      using True unfolding f_def L_def
      by (cases "forEach (\<lambda>child. draw MatrixMult n h child
                (MatrixMult a (getTransformationMatrix (trs (h ! N))))
                (MatrixMult b (getTransformationMatrix (trs (h ! N))))
                (MatrixMult c (getTransformationMatrix (trs (h ! N))))
                (MatrixMult d (getTransformationMatrix (trs (h ! N))))) (children (h ! N))";
          cases "meshDrawer (h ! N)")
        (simp_all add: draw.simps Let_def node_calls_def)
  qed
qed

lemma draw_part_000_without_meshes:
  "draw_part_000 MatrixMult fuel (map (\<lambda>n. n\<lparr>meshDrawer := None\<rparr>) h) N a b c d =
     map_option node_calls (draw_part_000 MatrixMult fuel h N a b c d)"
proof (induction fuel arbitrary: N a b c d)
  case 0
  show ?case by simp
next
  case (Suc n)
  show ?case
  proof (cases "N < length h")
    case False
    then show ?thesis by (simp add: draw_part_000.simps)
  next
    case True
    define L where "L = getTransformationMatrix (trs (h ! N))"
    define f where "f = (\<lambda>child. draw_part_000 MatrixMult n h child (MatrixMult a L)
        (MatrixMult b L) (MatrixMult c L) (MatrixMult d L))"
    have "forEach (\<lambda>child. draw_part_000 MatrixMult n (map (\<lambda>n. n\<lparr>meshDrawer := None\<rparr>) h)
              child (MatrixMult a L) (MatrixMult b L) (MatrixMult c L) (MatrixMult d L))
            (children (h ! N)) =
          forEach (\<lambda>child. map_option node_calls (f child)) (children (h ! N))"
      by (simp add: Suc.IH f_def)
    also have "\<dots> = map_option node_calls (forEach f (children (h ! N)))"
      by (rule forEach_map_option) (simp_all add: node_calls_def)
    finally show ?thesis
      using True unfolding f_def L_def
      by (cases "forEach (\<lambda>child. draw_part_000 MatrixMult n h child
                (MatrixMult a (getTransformationMatrix (trs (h ! N))))
                (MatrixMult b (getTransformationMatrix (trs (h ! N))))
                (MatrixMult c (getTransformationMatrix (trs (h ! N))))
                (MatrixMult d (getTransformationMatrix (trs (h ! N))))) (children (h ! N))";
          cases "meshDrawer (h ! N)")
        (simp_all add: draw_part_000.simps Let_def node_calls_def)
  qed
qed

subsection \<open>Paths\<close>

text \<open>
  The MeshDrawer at the end of a path is drawn with the incoming matrices multiplied by
  the local transforms along the path, and every call of \<open>MeshDrawer.draw\<close> comes from
  such a path.
\<close>

lemma path_nonempty: "path h ps \<Longrightarrow> ps \<noteq> []"
  by (cases ps) auto

lemma path_Cons:
  "path h ps \<Longrightarrow> r < length h \<Longrightarrow> hd ps \<in> set (children (h ! r)) \<Longrightarrow> path h (r # ps)"
  by (cases ps) auto

lemma draw_path_mesh:
  "path h ps \<Longrightarrow> draw MatrixMult fuel h (hd ps) a b c d = Some calls \<Longrightarrow>
   meshDrawer (h ! last ps) = Some m \<Longrightarrow>
   MeshDraw m (foldl MatrixMult a (map (local_transform h) ps))
     (foldl MatrixMult b (map (local_transform h) ps))
     (foldl MatrixMult c (map (local_transform h) ps))
     (foldl MatrixMult d (map (local_transform h) ps)) \<in> set calls"
proof (induction h ps arbitrary: fuel a b c d calls rule: path.induct)
  case (1 h)
  then show ?case by simp
next
  case (2 h r)
  from "2.prems"(2) obtain n where "fuel = Suc n" by (cases fuel) auto
  with "2.prems" show ?case
    by (auto simp: draw_Suc_Some local_transform_def)
next
  case (3 h r x ps)
  from "3.prems"(2) obtain n where fuel: "fuel = Suc n" by (cases fuel) auto
  define L where "L = local_transform h r"
  from "3.prems"(2) have "draw MatrixMult fuel h r a b c d = Some calls" by simp
  then obtain below where
    below: "map (\<lambda>child. draw MatrixMult n h child (MatrixMult a L) (MatrixMult b L)
               (MatrixMult c L) (MatrixMult d L)) (children (h ! r)) = map Some below"
    and calls': "calls = NodeDraw r a b c d # concat below @
        (case meshDrawer (h ! r) of None \<Rightarrow> []
         | Some m \<Rightarrow> [MeshDraw m (MatrixMult a L) (MatrixMult b L) (MatrixMult c L)
             (MatrixMult d L)])"
    unfolding fuel draw_Suc_Some L_def local_transform_def by blast
  have calls: "set (concat below) \<subseteq> set calls"
    unfolding calls' by auto
  from "3.prems"(1) have x: "x \<in> set (children (h ! r))" and p: "path h (x # ps)" by auto
  from map_Some_nth[OF below x] obtain y where y: "y \<in> set below"
    and dx: "draw MatrixMult n h x (MatrixMult a L) (MatrixMult b L)
               (MatrixMult c L) (MatrixMult d L) = Some y"
    by auto
  from "3.prems"(3) have "meshDrawer (h ! last (x # ps)) = Some m" by simp
  from "3.IH"[OF p _ this, of n "MatrixMult a L" "MatrixMult b L" "MatrixMult c L"
      "MatrixMult d L" y] dx
  have "MeshDraw m (foldl MatrixMult (MatrixMult a L) (map (local_transform h) (x # ps)))
     (foldl MatrixMult (MatrixMult b L) (map (local_transform h) (x # ps)))
     (foldl MatrixMult (MatrixMult c L) (map (local_transform h) (x # ps)))
     (foldl MatrixMult (MatrixMult d L) (map (local_transform h) (x # ps))) \<in> set y"
    by simp
  with y calls show ?case by (auto simp: L_def)
qed

lemma draw_mesh_path:
  "draw MatrixMult fuel h r a b c d = Some calls \<Longrightarrow> MeshDraw m A B C D \<in> set calls \<Longrightarrow>
   \<exists>ps. path h ps \<and> hd ps = r \<and> meshDrawer (h ! last ps) = Some m \<and>
     A = foldl MatrixMult a (map (local_transform h) ps) \<and>
     B = foldl MatrixMult b (map (local_transform h) ps) \<and>
     C = foldl MatrixMult c (map (local_transform h) ps) \<and>
     D = foldl MatrixMult d (map (local_transform h) ps)"
proof (induction fuel arbitrary: r a b c d calls)
  case 0
  then show ?case by simp
next
  case (Suc n)
  define L where "L = local_transform h r"
  from Suc.prems(1) have r: "r < length h" by (simp add: draw_Suc_Some)
  from Suc.prems(1) obtain below where
    below: "map (\<lambda>child. draw MatrixMult n h child (MatrixMult a L) (MatrixMult b L)
               (MatrixMult c L) (MatrixMult d L)) (children (h ! r)) = map Some below"
    and calls: "calls = NodeDraw r a b c d # concat below @
        (case meshDrawer (h ! r) of None \<Rightarrow> []
         | Some m \<Rightarrow> [MeshDraw m (MatrixMult a L) (MatrixMult b L) (MatrixMult c L)
             (MatrixMult d L)])"
    unfolding draw_Suc_Some L_def local_transform_def by blast
  from Suc.prems(2) calls consider
    (below) y where "y \<in> set below" "MeshDraw m A B C D \<in> set y"
    | (own) "meshDrawer (h ! r) = Some m" "A = MatrixMult a L" "B = MatrixMult b L"
         "C = MatrixMult c L" "D = MatrixMult d L"
    by (auto split: option.splits)
  then show ?case
  proof cases
    case below': below
    from map_Some_set[OF below below'(1)] obtain x where x: "x \<in> set (children (h ! r))"
      and dx: "draw MatrixMult n h x (MatrixMult a L) (MatrixMult b L)
               (MatrixMult c L) (MatrixMult d L) = Some y"
      by auto
    from Suc.IH[OF dx below'(2)] obtain ps where ps: "path h ps" "hd ps = x"
      "meshDrawer (h ! last ps) = Some m"
      "A = foldl MatrixMult (MatrixMult a L) (map (local_transform h) ps)"
      "B = foldl MatrixMult (MatrixMult b L) (map (local_transform h) ps)"
      "C = foldl MatrixMult (MatrixMult c L) (map (local_transform h) ps)"
      "D = foldl MatrixMult (MatrixMult d L) (map (local_transform h) ps)"
      by blast
    have "path h (r # ps)" using ps(1,2) r x by (auto intro: path_Cons)
    moreover have "last (r # ps) = last ps" using path_nonempty[OF ps(1)] by simp
    ultimately show ?thesis
      using ps by (intro exI[of _ "r # ps"]) (simp add: L_def)
  next
    case own
    with r show ?thesis
      by (intro exI[of _ "[r]"]) (simp add: L_def)
  qed
qed

lemma path_product_foldl:
  assumes "\<forall>x. MatrixMult ident x = x" and "path h ps"
  shows "path_product MatrixMult h ps =
           Some (foldl MatrixMult ident (map (local_transform h) ps))"
  using assms by (cases ps) auto

subsection \<open>Constructors and addChild\<close>

lemma SceneNode_constructor_part_000_eq:
  "SceneNode_constructor_part_000 h m t p = SceneNode_constructor h m t p"
  by (cases m; cases p) (simp_all add: SceneNode_constructor_part_000_def SceneNode_constructor_def Let_def)

lemma constructor_None:
  "SceneNode_constructor h m t None =
     (h @ [\<lparr>meshDrawer = m, trs = t, parent = None, children = []\<rparr>], length h)"
  by (simp add: SceneNode_constructor_def Let_def)

lemma constructor_Some:
  "p < length h \<Longrightarrow>
   SceneNode_constructor h m t (Some p) =
     (h[p := (h ! p)\<lparr>children := children (h ! p) @ [length h]\<rparr>] @
        [\<lparr>meshDrawer = m, trs = t, parent = Some p, children = []\<rparr>], length h)"
  by (simp add: SceneNode_constructor_def Let_def addChild_def list_update_append nth_append)

lemma addChild_length: "length (addChild h p c) = length h"
  by (simp add: addChild_def)

lemma addChild_parent: "parent (addChild h p c ! n) = parent (h ! n)"
  by (cases "p < length h"; cases "n = p") (simp_all add: addChild_def list_update_beyond)

lemma constructor_length: "length (fst (SceneNode_constructor h m t p)) = Suc (length h)"
  by (cases p) (simp_all add: SceneNode_constructor_def Let_def addChild_def)

lemma constructor_parent:
  "n \<le> length h \<Longrightarrow>
   parent (fst (SceneNode_constructor h m t p) ! n) =
     (if n = length h then p else parent (h ! n))"
  by (cases p) (auto simp: SceneNode_constructor_def Let_def addChild_parent nth_append)

lemma constructor_children:
  "n \<le> length h \<Longrightarrow> p < length h \<Longrightarrow>
   children (fst (SceneNode_constructor h m t (Some p)) ! n) =
     (if n = length h then [] else if n = p then children (h ! p) @ [length h]
      else children (h ! n))"
  by (auto simp: constructor_Some nth_append nth_list_update)

lemma constructor_children_None:
  "n \<le> length h \<Longrightarrow>
   children (fst (SceneNode_constructor h m t None) ! n) =
     (if n = length h then [] else children (h ! n))"
  by (auto simp: constructor_None nth_append)

lemma constructor_with_parent_aux:
  fixes h :: "('d, 'm) heap"
  assumes P: "P < length h"
  shows "snd (SceneNode_constructor h m t (Some P)) = snd (SceneNode_constructor h m t None) \<and>
         map children (fst (SceneNode_constructor h m t (Some P))) =
           map children (addChild (fst (SceneNode_constructor h m t None)) P
             (snd (SceneNode_constructor h m t None))) \<and>
         snd (SceneNode_constructor h m t (Some P)) \<in>
           set (children (fst (SceneNode_constructor h m t (Some P)) ! P)) \<and>
         snd (SceneNode_constructor h m t None) \<in>
           set (children (addChild (fst (SceneNode_constructor h m t None)) P
             (snd (SceneNode_constructor h m t None)) ! P)) \<and>
         fst (SceneNode_constructor h m t (Some P)) =
           (addChild (fst (SceneNode_constructor h m t None)) P
             (snd (SceneNode_constructor h m t None)))
           [snd (SceneNode_constructor h m t None) :=
              (addChild (fst (SceneNode_constructor h m t None)) P
                 (snd (SceneNode_constructor h m t None)) !
               snd (SceneNode_constructor h m t None))\<lparr>parent := Some P\<rparr>]"
  using P
  by (simp add: constructor_Some constructor_None addChild_def list_update_append nth_append)

lemma constructor_keeps_old_nodes:
  assumes n: "n < length h"
  shows "parent (fst (SceneNode_constructor h m t q) ! n) = parent (h ! n) \<and>
         (\<exists>new. children (fst (SceneNode_constructor h m t q) ! n) = children (h ! n) @ new)"
proof (cases q)
  case None
  with n show ?thesis by (simp add: constructor_None nth_append)
next
  case (Some p)
  with n show ?thesis
    by (cases "n = p")
       (simp_all add: SceneNode_constructor_def Let_def addChild_def nth_append
         nth_list_update list_update_append)
qed

lemma addChild_keeps_nodes:
  "parent (addChild h p c ! n) = parent (h ! n) \<and>
   (\<exists>new. children (addChild h p c ! n) = children (h ! n) @ new)"
  by (cases "p < length h"; cases "n = p")
     (simp_all add: addChild_def list_update_beyond)

subsection \<open>Heaps built by the constructors\<close>

text \<open>
  The constructors keep the agreement of parent and children references. Every heap that
  they build is a forest: below each of its nodes the children references unfold to a
  finite tree in which no node occurs twice, so \<open>draw\<close> on any node of such a heap
  returns.
\<close>

lemma family_invD1:
  "family_inv h \<Longrightarrow> n < length h \<Longrightarrow> c \<in> set (children (h ! n)) \<Longrightarrow>
   n < c \<and> c < length h \<and> parent (h ! c) = Some n"
  unfolding family_inv_def by blast

lemma family_invD2:
  "family_inv h \<Longrightarrow> n < length h \<Longrightarrow> parent (h ! n) = Some p \<Longrightarrow>
   p < length h \<and> count_list (children (h ! p)) n = 1"
  unfolding family_inv_def by blast

lemma family_invI:
  assumes "\<And>n c. n < length h \<Longrightarrow> c \<in> set (children (h ! n)) \<Longrightarrow>
      n < c \<and> c < length h \<and> parent (h ! c) = Some n"
    and "\<And>n p. n < length h \<Longrightarrow> parent (h ! n) = Some p \<Longrightarrow>
      p < length h \<and> count_list (children (h ! p)) n = 1"
  shows "family_inv h"
  unfolding family_inv_def using assms by blast

lemma family_inv_constructor_None:
  assumes inv: "family_inv h"
  shows "family_inv (fst (SceneNode_constructor h m t None))"
proof (rule family_invI)
  let ?h = "fst (SceneNode_constructor h m t None)"
  have len: "length ?h = Suc (length h)" by (rule constructor_length)
  {
    fix n c assume n: "n < length ?h" and c: "c \<in> set (children (?h ! n))"
    from n len have n': "n \<le> length h" by simp
    from c n' have nl: "n < length h" and c': "c \<in> set (children (h ! n))"
      by (auto simp: constructor_children_None split: if_splits)
    from family_invD1[OF inv nl c'] have 1: "n < c" "c < length h" "parent (h ! c) = Some n"
      by auto
    from 1(2) have "parent (?h ! c) = parent (h ! c)"
      by (simp add: constructor_parent)
    with 1 len show "n < c \<and> c < length ?h \<and> parent (?h ! c) = Some n" by simp
  next
    fix n p assume n: "n < length ?h" and p: "parent (?h ! n) = Some p"
    from n len have n': "n \<le> length h" by simp
    from p n' have nl: "n < length h" and p': "parent (h ! n) = Some p"
      by (auto simp: constructor_parent split: if_splits)
    from family_invD2[OF inv nl p'] have 2: "p < length h" "count_list (children (h ! p)) n = 1"
      by auto
    from 2(1) have "children (?h ! p) = children (h ! p)"
      by (simp add: constructor_children_None)
    with 2 len show "p < length ?h \<and> count_list (children (?h ! p)) n = 1" by simp
  }
qed

lemma family_inv_constructor_Some:
  assumes inv: "family_inv h" and q: "q < length h"
  shows "family_inv (fst (SceneNode_constructor h m t (Some q)))"
proof (rule family_invI)
  let ?h = "fst (SceneNode_constructor h m t (Some q))"
  have len: "length ?h = Suc (length h)" by (rule constructor_length)
  have fresh: "length h \<notin> set (children (h ! k))" if "k < length h" for k
    using family_invD1[OF inv that, of "length h"] by auto
  {
    fix n c assume n: "n < length ?h" and c: "c \<in> set (children (?h ! n))"
    from n len have n': "n \<le> length h" by simp
    from c n' q have nl: "n < length h"
      by (auto simp: constructor_children split: if_splits)
    show "n < c \<and> c < length ?h \<and> parent (?h ! c) = Some n"
    proof (cases "c = length h")
      case True
      with c n' q fresh[OF nl] have "n = q"
        by (auto simp: constructor_children split: if_splits)
      with True nl len show ?thesis by (simp add: constructor_parent)
    next
      case False
      with c n' q have c': "c \<in> set (children (h ! n))"
        by (auto simp: constructor_children split: if_splits)
      from family_invD1[OF inv nl c'] have 1: "n < c" "c < length h" "parent (h ! c) = Some n"
        by auto
      from 1(2) have "parent (?h ! c) = parent (h ! c)"
        by (simp add: constructor_parent)
      with 1 len show ?thesis by simp
    qed
  next
    fix n p assume n: "n < length ?h" and p: "parent (?h ! n) = Some p"
    from n len have n': "n \<le> length h" by simp
    show "p < length ?h \<and> count_list (children (?h ! p)) n = 1"
    proof (cases "n = length h")
      case True
      with p have "p = q" by (simp add: constructor_parent)
      with True q len fresh[OF q] show ?thesis
        by (simp add: constructor_children)
    next
      case False
      with n' have nl: "n < length h" by simp
      with p have p': "parent (h ! n) = Some p" by (simp add: constructor_parent)
      from family_invD2[OF inv nl p'] have 2: "p < length h"
        "count_list (children (h ! p)) n = 1"
        by auto
      from 2(1) q have "children (?h ! p) =
          (if p = q then children (h ! p) @ [length h] else children (h ! p))"
        by (simp add: constructor_children)
      with 2 len False show ?thesis by auto
    qed
  }
qed

lemma constructed_family_inv: "constructed h \<Longrightarrow> family_inv h"
proof (induction rule: constructed.induct)
  case empty
  show ?case by (simp add: family_inv_def)
qed (simp_all add: SceneNode_constructor_part_000_eq family_inv_constructor_None
      family_inv_constructor_Some)

lemma root_add_leaf: "root (add_leaf p k t) = root t"
  by (cases t) simp

lemma scene_tree_bound: "scene_tree h t \<Longrightarrow> x \<in> set (preorder t) \<Longrightarrow> x < length h"
  by (induction t arbitrary: x) auto

lemma scene_tree_constructor_None:
  "scene_tree h t \<Longrightarrow> scene_tree (fst (SceneNode_constructor h m tr None)) t"
proof (induction t)
  case (Tree r ts)
  then have r: "r < length h" by simp
  with Tree show ?case
    by (auto simp: constructor_length constructor_children_None)
qed

lemma scene_tree_constructor_Some:
  assumes p: "p < length h"
  shows "scene_tree h t \<Longrightarrow>
    scene_tree (fst (SceneNode_constructor h m tr (Some p))) (add_leaf p (length h) t)"
proof (induction t)
  case (Tree r ts)
  let ?h = "fst (SceneNode_constructor h m tr (Some p))"
  from Tree.prems have r: "r < length h" and cs: "map root ts = children (h ! r)"
    and sub: "\<And>t. t \<in> set ts \<Longrightarrow> scene_tree h t"
    by auto
  have leaf: "scene_tree ?h (Tree (length h) [])"
    using p by (simp add: constructor_length constructor_children)
  have kids: "children (?h ! r) = (if r = p then children (h ! r) @ [length h] else children (h ! r))"
    using r p by (simp add: constructor_children)
  have roots: "map root (map (add_leaf p (length h)) ts) = map root ts"
    by (simp add: root_add_leaf comp_def)
  have subs: "\<And>t. t \<in> set ts \<Longrightarrow> scene_tree ?h (add_leaf p (length h) t)"
    using Tree.IH sub by blast
  have len: "r < length ?h" using r by (simp add: constructor_length)
  show ?case
  proof (cases "r = p")
    case True
    have "map root (map (add_leaf p (length h)) ts @ [Tree (length h) []]) = children (?h ! r)"
      using kids roots cs True by simp
    moreover have "\<forall>t \<in> set (map (add_leaf p (length h)) ts @ [Tree (length h) []]).
        scene_tree ?h t"
      using subs leaf by auto
    ultimately have "scene_tree ?h (Tree r (map (add_leaf p (length h)) ts @ [Tree (length h) []]))"
      using len by (simp del: map_append)
    with True show ?thesis by simp
  next
    case False
    have "map root (map (add_leaf p (length h)) ts) = children (?h ! r)"
      using kids roots cs False by simp
    moreover have "\<forall>t \<in> set (map (add_leaf p (length h)) ts). scene_tree ?h t"
      using subs by auto
    ultimately have "scene_tree ?h (Tree r (map (add_leaf p (length h)) ts))"
      using len by simp
    with False show ?thesis by simp
  qed
qed

lemma count_list_preorder_add_leaf:
  "count_list (preorder (add_leaf p k t)) x =
     count_list (preorder t) x + (if x = k then count_list (preorder t) p else 0)"
proof (induction t)
  case (Tree r ts)
  have "sum_list (map (\<lambda>t. count_list (preorder (add_leaf p k t)) x) ts) =
        sum_list (map (\<lambda>t. count_list (preorder t) x +
                          (if x = k then count_list (preorder t) p else 0)) ts)"
    using Tree.IH by (intro arg_cong[of _ _ sum_list] map_cong) auto
  also have "\<dots> = sum_list (map (\<lambda>t. count_list (preorder t) x) ts) +
      (if x = k then sum_list (map (\<lambda>t. count_list (preorder t) p) ts) else 0)"
    by (induction ts) auto
  finally show ?case
    by (simp add: count_list_concat comp_def)
qed

lemma distinct_preorder_add_leaf:
  assumes "distinct (preorder t)" and "k \<notin> set (preorder t)"
  shows "distinct (preorder (add_leaf p k t))"
proof -
  from assms(1) have c: "count_list (preorder t) x \<le> 1" for x
    by (simp add: distinct_iff_count_list)
  from assms(2) have k: "count_list (preorder t) k = 0"
    by (simp add: count_list_0_iff)
  have "count_list (preorder (add_leaf p k t)) x \<le> 1" for x
    using c[of x] c[of p] k by (simp add: count_list_preorder_add_leaf)
  then show ?thesis by (simp add: distinct_iff_count_list)
qed

lemma constructed_is_forest:
  "constructed h \<Longrightarrow> r < length h \<Longrightarrow>
   \<exists>t. root t = r \<and> scene_tree h t \<and> distinct (preorder t)"
proof (induction arbitrary: r rule: constructed.induct)
  case empty
  then show ?case by simp
next
  case (new_root h m tr)
  show ?case
  proof (cases "r = length h")
    case True
    have "scene_tree (fst (SceneNode_constructor h m tr None)) (Tree r [])"
      using True by (simp add: constructor_length constructor_children_None)
    then show ?thesis by (intro exI[of _ "Tree r []"]) simp
  next
    case False
    with new_root.prems have "r < length h" by (simp add: constructor_length)
    from new_root.IH[OF this] obtain t where "root t = r" "scene_tree h t"
      "distinct (preorder t)"
      by blast
    then show ?thesis using scene_tree_constructor_None by blast
  qed
next
  case (new_child h p m tr)
  show ?case
  proof (cases "r = length h")
    case True
    have "scene_tree (fst (SceneNode_constructor h m tr (Some p))) (Tree r [])"
      using True new_child.hyps(2) by (simp add: constructor_length constructor_children)
    then show ?thesis by (intro exI[of _ "Tree r []"]) simp
  next
    case False
    with new_child.prems have "r < length h" by (simp add: constructor_length)
    from new_child.IH[OF this] obtain t where t: "root t = r" "scene_tree h t"
      "distinct (preorder t)"
      by blast
    from scene_tree_bound[OF t(2)] have "length h \<notin> set (preorder t)" by blast
    with t(3) have "distinct (preorder (add_leaf p (length h) t))"
      by (rule distinct_preorder_add_leaf)
    with t(1) scene_tree_constructor_Some[OF new_child.hyps(2) t(2)] show ?thesis
      by (intro exI[of _ "add_leaf p (length h) t"]) (simp add: root_add_leaf)
  qed
next
  case (new_root_part_000 h m tr)
  show ?case
  proof (cases "r = length h")
    case True
    have "scene_tree (fst (SceneNode_constructor h m tr None)) (Tree r [])"
      using True by (simp add: constructor_length constructor_children_None)
    then show ?thesis
      by (intro exI[of _ "Tree r []"]) (simp add: SceneNode_constructor_part_000_eq)
  next
    case False
    with new_root_part_000.prems have "r < length h"
      by (simp add: constructor_length SceneNode_constructor_part_000_eq)
    from new_root_part_000.IH[OF this] obtain t where "root t = r" "scene_tree h t"
      "distinct (preorder t)"
      by blast
    then show ?thesis
      using scene_tree_constructor_None unfolding SceneNode_constructor_part_000_eq by blast
  qed
next
  case (new_child_part_000 h p m tr)
  show ?case
  proof (cases "r = length h")
    case True
    have "scene_tree (fst (SceneNode_constructor h m tr (Some p))) (Tree r [])"
      using True new_child_part_000.hyps(2)
      by (simp add: constructor_length constructor_children)
    then show ?thesis
      by (intro exI[of _ "Tree r []"]) (simp add: SceneNode_constructor_part_000_eq)
  next
    case False
    with new_child_part_000.prems have "r < length h"
      by (simp add: constructor_length SceneNode_constructor_part_000_eq)
    from new_child_part_000.IH[OF this] obtain t where t: "root t = r" "scene_tree h t"
      "distinct (preorder t)"
      by blast
    from scene_tree_bound[OF t(2)] have "length h \<notin> set (preorder t)" by blast
    with t(3) have "distinct (preorder (add_leaf p (length h) t))"
      by (rule distinct_preorder_add_leaf)
    with t(1) scene_tree_constructor_Some[OF new_child_part_000.hyps(2) t(2)] show ?thesis
      unfolding SceneNode_constructor_part_000_eq
      by (intro exI[of _ "add_leaf p (length h) t"]) (simp add: root_add_leaf)
  qed
qed

lemma constructed_draw_returns:
  assumes "constructed h" and "r < length h"
  shows "\<exists>fuel calls calls'.
           draw MatrixMult fuel h r a b c d = Some calls \<and> distinct (drawn_nodes calls) \<and>
           draw_part_000 MatrixMult fuel h r a b c d = Some calls' \<and>
           distinct (drawn_nodes calls')"
proof -
  from constructed_is_forest[OF assms] obtain t where
    t: "root t = r" "scene_tree h t" "distinct (preorder t)"
    by blast
  from draw_scene_tree[OF t(2) le_refl, of MatrixMult a b c d] obtain calls where
    c: "draw MatrixMult (tree_height t) h (root t) a b c d = Some calls"
      "drawn_nodes calls = preorder t"
    by blast
  from draw_part_000_scene_tree[OF t(2) le_refl, of MatrixMult a b c d] obtain calls' where
    c': "draw_part_000 MatrixMult (tree_height t) h (root t) a b c d = Some calls'"
      "drawn_nodes calls' = preorder t"
    by blast
  from c c' t(1,3) have
    "draw MatrixMult (tree_height t) h r a b c d = Some calls \<and> distinct (drawn_nodes calls) \<and>
     draw_part_000 MatrixMult (tree_height t) h r a b c d = Some calls' \<and>
     distinct (drawn_nodes calls')"
    by simp
  then show ?thesis by blast
qed

subsection \<open>The example scene\<close>

lemma example_scene_eq:
  "example_scene =
    [\<lparr>meshDrawer = Some ''sunMesh'', trs = TRS [''S''], parent = None, children = [1, 3]\<rparr>,
     \<lparr>meshDrawer = Some ''earthMesh'', trs = TRS [''E''], parent = Some 0, children = [2]\<rparr>,
     \<lparr>meshDrawer = Some ''moonMesh'', trs = TRS [''m''], parent = Some 1, children = []\<rparr>,
     \<lparr>meshDrawer = None, trs = TRS [''M''], parent = Some 0, children = []\<rparr>]"
  by (simp add: example_scene_def SceneNode_constructor_def SceneNode_constructor_part_000_def
      addChild_def Let_def)

lemma constructed_example_scene: "constructed example_scene"
proof -
  have 0: "constructed ([] :: (string, string list) heap)" by (rule constructed.empty)
  from 0 have 1: "constructed (fst (SceneNode_constructor ([] :: (string, string list) heap)
      (Some ''sunMesh'') (TRS [''S'']) None))"
    by (rule constructed.new_root)
  have "(0::nat) < length (fst (SceneNode_constructor ([] :: (string, string list) heap)
      (Some ''sunMesh'') (TRS [''S'']) None))"
    by (simp add: constructor_length)
  with 1 have 2: "constructed (fst (SceneNode_constructor
      (fst (SceneNode_constructor ([] :: (string, string list) heap)
         (Some ''sunMesh'') (TRS [''S'']) None))
      (Some ''earthMesh'') (TRS [''E'']) (Some 0)))"
    by (rule constructed.new_child)
  have "(1::nat) < length (fst (SceneNode_constructor
      (fst (SceneNode_constructor ([] :: (string, string list) heap)
         (Some ''sunMesh'') (TRS [''S'']) None))
      (Some ''earthMesh'') (TRS [''E'']) (Some 0)))"
    by (simp add: constructor_length)
  with 2 have 3: "constructed (fst (SceneNode_constructor_part_000 (fst (SceneNode_constructor
      (fst (SceneNode_constructor ([] :: (string, string list) heap)
         (Some ''sunMesh'') (TRS [''S'']) None))
      (Some ''earthMesh'') (TRS [''E'']) (Some 0)))
      (Some ''moonMesh'') (TRS [''m'']) (Some 1)))"
    by (rule constructed.new_child_part_000)
  have "(0::nat) < length (fst (SceneNode_constructor_part_000 (fst (SceneNode_constructor
      (fst (SceneNode_constructor ([] :: (string, string list) heap)
         (Some ''sunMesh'') (TRS [''S'']) None))
      (Some ''earthMesh'') (TRS [''E'']) (Some 0)))
      (Some ''moonMesh'') (TRS [''m'']) (Some 1)))"
    by (simp add: constructor_length SceneNode_constructor_part_000_eq)
  with 3 have 4: "constructed (fst (SceneNode_constructor_part_000
      (fst (SceneNode_constructor_part_000 (fst (SceneNode_constructor
      (fst (SceneNode_constructor ([] :: (string, string list) heap)
         (Some ''sunMesh'') (TRS [''S'']) None))
      (Some ''earthMesh'') (TRS [''E'']) (Some 0)))
      (Some ''moonMesh'') (TRS [''m'']) (Some 1)))
      None (TRS [''M'']) (Some 0)))"
    by (rule constructed.new_child_part_000)
  have "example_scene = fst (SceneNode_constructor_part_000
      (fst (SceneNode_constructor_part_000 (fst (SceneNode_constructor
      (fst (SceneNode_constructor ([] :: (string, string list) heap)
         (Some ''sunMesh'') (TRS [''S'']) None))
      (Some ''earthMesh'') (TRS [''E'']) (Some 0)))
      (Some ''moonMesh'') (TRS [''m'']) (Some 1)))
      None (TRS [''M'']) (Some 0))"
    by (simp add: example_scene_def SceneNode_constructor_def SceneNode_constructor_part_000_def
        addChild_def Let_def)
  with 4 show ?thesis by simp
qed

subsection \<open>Powers of two\<close>

lemma isPowerOf2_iff: "isPowerOf2 n \<longleftrightarrow> (\<exists>k. n = 2 ^ k)"
proof (induction n rule: less_induct)
  case (less n)
  show ?case
  proof (cases "n \<le> 1")
    case True
    then have "n = 0 \<or> n = 1" by auto
    then show ?thesis
    proof
      assume "n = 0"
      then show ?thesis by simp
    next
      assume n1: "n = 1"
      then have "n = 2 ^ 0" by simp
      then have "\<exists>k. n = 2 ^ k" by (rule exI)
      moreover have "isPowerOf2 n" using n1 by (subst isPowerOf2.simps) simp
      ultimately show ?thesis by simp
    qed
  next
    case False
    then have n: "n \<noteq> 0" "n \<noteq> 1" "n div 2 < n" by auto
    have "isPowerOf2 n \<longleftrightarrow> n mod 2 = 0 \<and> isPowerOf2 (n div 2)"
      using n by (subst isPowerOf2.simps) simp
    also have "\<dots> \<longleftrightarrow> n mod 2 = 0 \<and> (\<exists>k. n div 2 = 2 ^ k)"
      using less.IH[OF n(3)] by simp
    also have "\<dots> \<longleftrightarrow> (\<exists>k. n = 2 ^ k)"
    proof
      assume "n mod 2 = 0 \<and> (\<exists>k. n div 2 = 2 ^ k)"
      then obtain k where nk: "n mod 2 = 0" "n div 2 = 2 ^ k" by auto
      have "n = 2 * (n div 2)" using nk(1) by presburger
      then have "n = 2 ^ Suc k" using nk(2) by simp
      then show "\<exists>k. n = 2 ^ k" by blast
    next
      assume "\<exists>k. n = 2 ^ k"
      then obtain k where k: "n = 2 ^ k" by auto
      with n obtain j where "k = Suc j" by (cases k) auto
      with k show "n mod 2 = 0 \<and> (\<exists>k. n div 2 = 2 ^ k)" by auto
    qed
    finally show ?thesis .
  qed
qed

declare isPowerOf2.simps [simp del]

subsection \<open>The division of JavaScript\<close>

text \<open>
  \<open>js_divide\<close> is exact when the divisor divides the dividend. Otherwise its result
  has a mantissa of 53 bits and is within half a unit in the last place of the quotient.
\<close>

declare binade_shift.simps [simp del]

lemma js_divide_exact:
  assumes "b dvd a" and "0 < b"
  shows "js_divide a b = of_nat (a div b)"
proof -
  from assms(1) obtain c where c: "a = b * c" by (rule dvdE)
  define k where "k = binade_shift a b"
  have q: "(a * 2 ^ k) div b = c * 2 ^ k" and r: "(a * 2 ^ k) mod b = 0"
    using assms(2) by (simp_all add: c mult.assoc)
  have "js_divide a b = of_nat (c * 2 ^ k) / 2 ^ k"
    using assms(2) unfolding js_divide_def Let_def k_def[symmetric] q r by simp
  also have "\<dots> = of_nat c" by simp
  finally show ?thesis using assms(2) by (simp add: c)
qed

lemma binade_shift_spec:
  "0 < a \<Longrightarrow> 0 < b \<Longrightarrow> a < b * 2 ^ 53 \<Longrightarrow>
   b * 2 ^ 52 \<le> a * 2 ^ binade_shift a b \<and> a * 2 ^ binade_shift a b < b * 2 ^ 53"
proof (induction a b rule: binade_shift.induct)
  case (1 a b)
  show ?case
  proof (cases "b * 2 ^ 52 \<le> a")
    case True
    with "1.prems" show ?thesis by (subst (1 2) binade_shift.simps) simp
  next
    case False
    with "1.prems" have a: "a \<noteq> 0" "\<not> (a = 0 \<or> b * 2 ^ 52 \<le> a)" "0 < 2 * a" "2 * a < b * 2 ^ 53"
      by auto
    from "1.IH"[OF a(2) a(3) "1.prems"(2) a(4)]
    have "b * 2 ^ 52 \<le> 2 * a * 2 ^ binade_shift (2 * a) b \<and>
          2 * a * 2 ^ binade_shift (2 * a) b < b * 2 ^ 53" .
    moreover have "binade_shift a b = Suc (binade_shift (2 * a) b)"
      using a(2) by (subst binade_shift.simps) simp
    ultimately show ?thesis by (simp add: mult.assoc mult.left_commute)
  qed
qed

lemma js_divide_rounds:
  assumes a: "0 < a" and b: "0 < b" and bound: "a < b * 2 ^ 53"
  shows "\<exists>m. js_divide a b = of_nat m / 2 ^ binade_shift a b \<and>
           2 ^ 52 \<le> m \<and> m \<le> 2 ^ 53 \<and>
           \<bar>js_divide a b - of_nat a / of_nat b\<bar> \<le> 1 / 2 ^ Suc (binade_shift a b)"
proof -
  define k where "k = binade_shift a b"
  define q where "q = (a * 2 ^ k) div b"
  define r where "r = (a * 2 ^ k) mod b"
  define m where "m = (if 2 * r < b then q else if b < 2 * r then q + 1
                       else if even q then q else q + 1)"
  have js: "js_divide a b = of_nat m / 2 ^ k"
    by (simp add: js_divide_def Let_def k_def q_def r_def m_def)
  from binade_shift_spec[OF a b bound]
  have lo: "b * 2 ^ 52 \<le> a * 2 ^ k" and hi: "a * 2 ^ k < b * 2 ^ 53"
    by (simp_all add: k_def)
  have split: "a * 2 ^ k = q * b + r" and rb: "r < b"
    using b by (simp_all add: q_def r_def)
  have qlo: "2 ^ 52 \<le> q"
  proof -
    have "2 ^ 52 * b \<le> a * 2 ^ k" using lo by (simp add: mult.commute)
    then show ?thesis using b unfolding q_def by (simp add: less_eq_div_iff_mult_less_eq)
  qed
  have qhi: "q < 2 ^ 53"
  proof -
    have "a * 2 ^ k < 2 ^ 53 * b" using hi by (simp add: mult.commute)
    then show ?thesis using b unfolding q_def by (simp add: div_less_iff_less_mult)
  qed
  have mq: "m = q \<or> m = q + 1" by (simp add: m_def)
  with qlo qhi have m: "2 ^ 52 \<le> m" "m \<le> 2 ^ 53" by auto
  have x: "(of_nat a :: rat) * 2 ^ k / of_nat b = of_nat q + of_nat r / of_nat b"
  proof -
    have "(of_nat a :: rat) * 2 ^ k = of_nat (a * 2 ^ k)" by simp
    also have "\<dots> = of_nat q * of_nat b + of_nat r" by (simp add: split)
    finally show ?thesis using b by (simp add: field_simps)
  qed
  have half: "\<bar>(of_nat m :: rat) - (of_nat q + of_nat r / of_nat b)\<bar> \<le> 1 / 2"
  proof -
    have bpos: "(0::rat) < of_nat b" using b by simp
    consider "2 * r < b" | "b < 2 * r" | "2 * r = b" by linarith
    then show ?thesis
    proof cases
      case 1
      then have "m = q" by (simp add: m_def)
      moreover from 1 have "(2::rat) * of_nat r < of_nat b"
        by (metis of_nat_less_iff of_nat_mult of_nat_numeral)
      then have "(of_nat r :: rat) / of_nat b < 1 / 2" using bpos by (simp add: field_simps)
      moreover have "(0::rat) \<le> of_nat r / of_nat b" by simp
      ultimately show ?thesis by simp
    next
      case 2
      then have "m = q + 1" by (simp add: m_def)
      moreover from 2 have "(of_nat b :: rat) < 2 * of_nat r"
        by (metis of_nat_less_iff of_nat_mult of_nat_numeral)
      then have "1 / 2 < (of_nat r :: rat) / of_nat b" using bpos by (simp add: field_simps)
      moreover from rb have "(of_nat r :: rat) / of_nat b < 1" using bpos by simp
      ultimately show ?thesis by simp
    next
      case 3
      then have "(2::rat) * of_nat r = of_nat b"
        by (metis of_nat_mult of_nat_numeral)
      then have "(of_nat r :: rat) / of_nat b = 1 / 2" using bpos by (simp add: field_simps)
      with mq show ?thesis by auto
    qed
  qed
  have "js_divide a b - of_nat a / of_nat b =
        (of_nat m - (of_nat a * 2 ^ k / of_nat b)) / 2 ^ k"
    by (simp add: js field_simps)
  then have "\<bar>js_divide a b - of_nat a / of_nat b\<bar> =
        \<bar>of_nat m - (of_nat q + of_nat r / of_nat b)\<bar> / 2 ^ k"
    by (simp add: x abs_divide)
  also have "\<dots> \<le> (1 / 2) / 2 ^ k"
    by (rule divide_right_mono[OF half]) simp
  finally have "\<bar>js_divide a b - of_nat a / of_nat b\<bar> \<le> 1 / 2 ^ Suc k" by simp
  with js m show ?thesis unfolding k_def by blast
qed

subsection \<open>The calls of the children\<close>

text \<open>
  The calls of every child begin with the call of \<open>SceneNode.draw\<close> on that child, so
  the order of the children can be read off the calls.
\<close>

lemma draws_start_at_children:
  "map (\<lambda>child. draw MatrixMult n h child A B C D) cs = map Some below \<Longrightarrow>
   map (\<lambda>b. hd (drawn_nodes b)) below = cs"
proof (induction cs arbitrary: below)
  case Nil
  then show ?case by simp
next
  case (Cons x xs)
  then obtain b bs where below: "below = b # bs"
    and b: "draw MatrixMult n h x A B C D = Some b"
    and bs: "map (\<lambda>child. draw MatrixMult n h child A B C D) xs = map Some bs"
    by (cases below) auto
  from draw_Some_hd[OF b] have "hd (drawn_nodes b) = x" by auto
  with Cons.IH[OF bs] below show ?case by simp
qed

lemma draws_part_000_start_at_children:
  "map (\<lambda>child. draw_part_000 MatrixMult n h child A B C D) cs = map Some below \<Longrightarrow>
   map (\<lambda>b. hd (drawn_nodes b)) below = cs"
proof (induction cs arbitrary: below)
  case Nil
  then show ?case by simp
next
  case (Cons x xs)
  then obtain b bs where below: "below = b # bs"
    and b: "draw_part_000 MatrixMult n h x A B C D = Some b"
    and bs: "map (\<lambda>child. draw_part_000 MatrixMult n h child A B C D) xs = map Some bs"
    by (cases below) auto
  from draw_part_000_Some_hd[OF b] have "hd (drawn_nodes b) = x" by auto
  with Cons.IH[OF bs] below show ?case by simp
qed

lemma tree_height_pos: "0 < tree_height t"
  by (cases t) simp


section \<open>The claims\<close>

subsection \<open>C1: the composed matrices\<close>

text \<open>
  Claim C1. Let \<open>N\<close> be a node with the local transform \<open>L\<close>, the nodes below it
  forming a finite tree, and let \<open>draw\<close> be called on \<open>N\<close> with the matrices \<open>mvp\<close>,
  \<open>modelView\<close>, \<open>normalMatrix\<close>, \<open>modelMatrix\<close>. Then the call returns, and the calls it
  made are: the call on \<open>N\<close>, one call of \<open>draw\<close> on each child with what that call does
  in turn, and the call of \<open>draw\<close> on the MeshDrawer of \<open>N\<close> if there is one. Each child and
  the MeshDrawer receive the four matrices \<open>MatrixMult mvp L\<close>, \<open>MatrixMult modelView L\<close>,
  \<open>MatrixMult normalMatrix L\<close>, \<open>MatrixMult modelMatrix L\<close>, every channel in its own
  position. This holds for the \<open>draw\<close> of both files.
\<close>

theorem draw_composes_local_on_right:
  fixes MatrixMult :: "'m \<Rightarrow> 'm \<Rightarrow> 'm" and h :: "('d, 'm) heap" and t :: tree and N :: ref
    and L :: 'm
  defines "N \<equiv> root t" and "L \<equiv> local_transform h (root t)"
  assumes tree: "scene_tree h t" and fuel: "tree_height t \<le> fuel"
  shows
  "(\<exists>calls below.
      draw MatrixMult fuel h N mvp modelView normalMatrix modelMatrix = Some calls \<and>
      length below = length (children (h ! N)) \<and>
      (\<forall>i < length below.
         draw MatrixMult (fuel - 1) h (children (h ! N) ! i) (MatrixMult mvp L)
           (MatrixMult modelView L) (MatrixMult normalMatrix L) (MatrixMult modelMatrix L)
           = Some (below ! i) \<and>
         hd (below ! i) = NodeDraw (children (h ! N) ! i) (MatrixMult mvp L)
           (MatrixMult modelView L) (MatrixMult normalMatrix L) (MatrixMult modelMatrix L)) \<and>
      calls = NodeDraw N mvp modelView normalMatrix modelMatrix # concat below @
        (case meshDrawer (h ! N) of
           None \<Rightarrow> []
         | Some m \<Rightarrow> [MeshDraw m (MatrixMult mvp L) (MatrixMult modelView L)
                        (MatrixMult normalMatrix L) (MatrixMult modelMatrix L)])) \<and>
   (\<exists>calls below.
      draw_part_000 MatrixMult fuel h N mvp modelView normalMatrix modelMatrix = Some calls \<and>
      length below = length (children (h ! N)) \<and>
      (\<forall>i < length below.
         draw_part_000 MatrixMult (fuel - 1) h (children (h ! N) ! i) (MatrixMult mvp L)
           (MatrixMult modelView L) (MatrixMult normalMatrix L) (MatrixMult modelMatrix L)
           = Some (below ! i) \<and>
         hd (below ! i) = NodeDraw (children (h ! N) ! i) (MatrixMult mvp L)
           (MatrixMult modelView L) (MatrixMult normalMatrix L) (MatrixMult modelMatrix L)) \<and>
      calls = NodeDraw N mvp modelView normalMatrix modelMatrix #
        (case meshDrawer (h ! N) of
           None \<Rightarrow> []
         | Some m \<Rightarrow> [MeshDraw m (MatrixMult mvp L) (MatrixMult modelView L)
                        (MatrixMult normalMatrix L) (MatrixMult modelMatrix L)]) @
        concat below)"
  (is "?X \<and> ?Y")
proof
  from fuel tree_height_pos[of t] obtain n where n: "fuel = Suc n" by (cases fuel) auto
  from draw_scene_tree[OF tree fuel, of MatrixMult mvp modelView normalMatrix modelMatrix]
  obtain calls where
    c: "draw MatrixMult (Suc n) h N mvp modelView normalMatrix modelMatrix = Some calls"
    unfolding n N_def by blast
  then obtain below where
    m: "map (\<lambda>child. draw MatrixMult n h child (MatrixMult mvp L)
              (MatrixMult modelView L) (MatrixMult normalMatrix L) (MatrixMult modelMatrix L))
          (children (h ! N)) = map Some below"
    and cs: "calls = NodeDraw N mvp modelView normalMatrix modelMatrix # concat below @
           (case meshDrawer (h ! N) of
              None \<Rightarrow> []
            | Some m \<Rightarrow> [MeshDraw m (MatrixMult mvp L) (MatrixMult modelView L)
                           (MatrixMult normalMatrix L) (MatrixMult modelMatrix L)])"
    unfolding draw_Suc_Some L_def N_def local_transform_def by blast
  from map_Some_index[OF m] have len: "length below = length (children (h ! N))"
    and each: "\<And>i. i < length below \<Longrightarrow>
       draw MatrixMult n h (children (h ! N) ! i) (MatrixMult mvp L)
         (MatrixMult modelView L) (MatrixMult normalMatrix L) (MatrixMult modelMatrix L)
       = Some (below ! i)"
    by auto
  have "hd (below ! i) = NodeDraw (children (h ! N) ! i) (MatrixMult mvp L)
      (MatrixMult modelView L) (MatrixMult normalMatrix L) (MatrixMult modelMatrix L)"
    if "i < length below" for i
    using draw_Some_hd[OF each[OF that]] by auto
  with len each c cs show ?X
    unfolding n by (intro exI[of _ calls] exI[of _ below]) simp
next
  from fuel tree_height_pos[of t] obtain n where n: "fuel = Suc n" by (cases fuel) auto
  from draw_part_000_scene_tree[OF tree fuel, of MatrixMult mvp modelView normalMatrix modelMatrix]
  obtain calls where
    c: "draw_part_000 MatrixMult (Suc n) h N mvp modelView normalMatrix modelMatrix = Some calls"
    unfolding n N_def by blast
  then obtain below where
    m: "map (\<lambda>child. draw_part_000 MatrixMult n h child (MatrixMult mvp L)
              (MatrixMult modelView L) (MatrixMult normalMatrix L) (MatrixMult modelMatrix L))
          (children (h ! N)) = map Some below"
    and cs: "calls = NodeDraw N mvp modelView normalMatrix modelMatrix #
           (case meshDrawer (h ! N) of
              None \<Rightarrow> []
            | Some m \<Rightarrow> [MeshDraw m (MatrixMult mvp L) (MatrixMult modelView L)
                           (MatrixMult normalMatrix L) (MatrixMult modelMatrix L)]) @
           concat below"
    unfolding draw_part_000_Suc_Some L_def N_def local_transform_def by blast
  from map_Some_index[OF m] have len: "length below = length (children (h ! N))"
    and each: "\<And>i. i < length below \<Longrightarrow>
       draw_part_000 MatrixMult n h (children (h ! N) ! i) (MatrixMult mvp L)
         (MatrixMult modelView L) (MatrixMult normalMatrix L) (MatrixMult modelMatrix L)
       = Some (below ! i)"
    by auto
  have "hd (below ! i) = NodeDraw (children (h ! N) ! i) (MatrixMult mvp L)
      (MatrixMult modelView L) (MatrixMult normalMatrix L) (MatrixMult modelMatrix L)"
    if "i < length below" for i
    using draw_part_000_Some_hd[OF each[OF that]] by auto
  with len each c cs show ?Y
    unfolding n by (intro exI[of _ calls] exI[of _ below]) simp
qed

theorem draw_composes_local_on_right_witness:
  "scene_tree example_scene (Tree 0 [Tree 1 [Tree 2 []], Tree 3 []]) \<and>
   tree_height (Tree 0 [Tree 1 [Tree 2 []], Tree 3 []]) \<le> 3 \<and>
   (\<exists>calls below.
      draw (@) 3 example_scene 0 [''P''] [''V''] [''N''] [] = Some calls \<and>
      length below = 2 \<and>
      hd (below ! 0) = NodeDraw 1 [''P'', ''S''] [''V'', ''S''] [''N'', ''S''] [''S''] \<and>
      hd (below ! 1) = NodeDraw 3 [''P'', ''S''] [''V'', ''S''] [''N'', ''S''] [''S''] \<and>
      calls = NodeDraw 0 [''P''] [''V''] [''N''] [] # concat below @
        [MeshDraw ''sunMesh'' [''P'', ''S''] [''V'', ''S''] [''N'', ''S''] [''S'']]) \<and>
   (\<exists>calls below.
      draw_part_000 (@) 3 example_scene 0 [''P''] [''V''] [''N''] [] = Some calls \<and>
      length below = 2 \<and>
      hd (below ! 0) = NodeDraw 1 [''P'', ''S''] [''V'', ''S''] [''N'', ''S''] [''S''] \<and>
      hd (below ! 1) = NodeDraw 3 [''P'', ''S''] [''V'', ''S''] [''N'', ''S''] [''S''] \<and>
      calls = NodeDraw 0 [''P''] [''V''] [''N''] [] #
        MeshDraw ''sunMesh'' [''P'', ''S''] [''V'', ''S''] [''N'', ''S''] [''S''] #
        concat below)"
  (is "?T \<and> ?H \<and> ?X \<and> ?Y")
proof -
  have T: ?T by (simp add: example_scene_eq)
  have H: ?H by simp
  have cs: "children (example_scene ! 0) = [1, 3]"
    and L: "local_transform example_scene 0 = [''S'']"
    and md: "meshDrawer (example_scene ! 0) = Some ''sunMesh''"
    by (simp_all add: example_scene_eq local_transform_def)
  note inst = draw_composes_local_on_right[OF T H, of "(@)" "[''P'']" "[''V'']" "[''N'']" "[]",
      unfolded tree.sel cs L md option.case append_Cons append_Nil]
  from inst[THEN conjunct1] obtain calls below where
    b: "draw (@) 3 example_scene 0 [''P''] [''V''] [''N''] [] = Some calls"
      "length below = length [1::nat, 3]"
      "\<forall>i < length below.
         draw (@) (3 - 1) example_scene ([1, 3] ! i) [''P'', ''S''] [''V'', ''S'']
           [''N'', ''S''] [''S''] = Some (below ! i) \<and>
         hd (below ! i) = NodeDraw ([1, 3] ! i) [''P'', ''S''] [''V'', ''S'']
           [''N'', ''S''] [''S'']"
      "calls = NodeDraw 0 [''P''] [''V''] [''N''] [] # concat below @
         [MeshDraw ''sunMesh'' [''P'', ''S''] [''V'', ''S''] [''N'', ''S''] [''S'']]"
    by (elim exE conjE)
  from b(2) have len: "length below = 2" by simp
  from b(3)[rule_format, of 0] b(3)[rule_format, of 1] len
  have "hd (below ! 0) = NodeDraw 1 [''P'', ''S''] [''V'', ''S''] [''N'', ''S''] [''S'']"
    "hd (below ! 1) = NodeDraw 3 [''P'', ''S''] [''V'', ''S''] [''N'', ''S''] [''S'']"
    by simp_all
  with b(1,4) len have X: ?X by (intro exI[of _ calls] exI[of _ below]) simp
  from inst[THEN conjunct2] obtain calls' below' where
    b': "draw_part_000 (@) 3 example_scene 0 [''P''] [''V''] [''N''] [] = Some calls'"
      "length below' = length [1::nat, 3]"
      "\<forall>i < length below'.
         draw_part_000 (@) (3 - 1) example_scene ([1, 3] ! i) [''P'', ''S''] [''V'', ''S'']
           [''N'', ''S''] [''S''] = Some (below' ! i) \<and>
         hd (below' ! i) = NodeDraw ([1, 3] ! i) [''P'', ''S''] [''V'', ''S'']
           [''N'', ''S''] [''S'']"
      "calls' = NodeDraw 0 [''P''] [''V''] [''N''] [] #
         MeshDraw ''sunMesh'' [''P'', ''S''] [''V'', ''S''] [''N'', ''S''] [''S''] #
         concat below'"
    by (elim exE conjE)
  from b'(2) have len': "length below' = 2" by simp
  from b'(3)[rule_format, of 0] b'(3)[rule_format, of 1] len'
  have "hd (below' ! 0) = NodeDraw 1 [''P'', ''S''] [''V'', ''S''] [''N'', ''S''] [''S'']"
    "hd (below' ! 1) = NodeDraw 3 [''P'', ''S''] [''V'', ''S''] [''N'', ''S''] [''S'']"
    by simp_all
  with b'(1,4) len' have Y: ?Y by (intro exI[of _ calls'] exI[of _ below']) simp
  from T H X Y show ?thesis by (intro conjI)
qed

subsection \<open>C2: the matrix delivered to a mesh\<close>

text \<open>
  Claim C2. Let the nodes below a root form a finite tree and let \<open>draw\<close> be called on the
  root with an identity matrix (a left identity of \<open>MatrixMult\<close>) on all four channels.
  Then \<open>draw\<close> returns, and for every node at depth \<open>d\<close> that has a MeshDrawer, that
  is, for every path of \<open>d + 1\<close> nodes from the root to it, the MeshDrawer is drawn
  with the product of the \<open>d + 1\<close> local transforms along the path on every channel,
  the transform of the root leftmost:
  \<open>(...((L\<^sub>0 \<times> L\<^sub>1) \<times> L\<^sub>2) ...) \<times> L\<^sub>d\<close>. Conversely every call of \<open>MeshDrawer.draw\<close> that
  is made is the one of such a path. The \<open>draw\<close> of \<open>part_000\<close> makes the same calls.
\<close>

theorem mesh_matrix_is_path_product:
  assumes ident: "\<forall>x. MatrixMult ident x = x"
    and tree: "scene_tree h t"
    and fuel: "tree_height t \<le> fuel"
  shows "\<exists>calls calls'.
           draw MatrixMult fuel h (root t) ident ident ident ident = Some calls \<and>
           draw_part_000 MatrixMult fuel h (root t) ident ident ident ident = Some calls' \<and>
           set calls' = set calls \<and>
           (\<forall>ps m. path h ps \<and> hd ps = root t \<and> meshDrawer (h ! last ps) = Some m \<longrightarrow>
              (\<exists>P. path_product MatrixMult h ps = Some P \<and> MeshDraw m P P P P \<in> set calls)) \<and>
           (\<forall>m A B C D. MeshDraw m A B C D \<in> set calls \<longrightarrow>
              (\<exists>ps P. path h ps \<and> hd ps = root t \<and> meshDrawer (h ! last ps) = Some m \<and>
                 path_product MatrixMult h ps = Some P \<and>
                 A = P \<and> B = P \<and> C = P \<and> D = P))"
proof -
  from draw_scene_tree[OF tree fuel, of MatrixMult ident ident ident ident] obtain calls where
    c: "draw MatrixMult fuel h (root t) ident ident ident ident = Some calls"
    by blast
  from draw_part_000_same_set[OF c] obtain calls' where
    c': "draw_part_000 MatrixMult fuel h (root t) ident ident ident ident = Some calls'"
    and m: "mset calls' = mset calls"
    by blast
  from m have s: "set calls' = set calls" by (rule mset_eq_setD)
  have down: "\<exists>P. path_product MatrixMult h ps = Some P \<and> MeshDraw m P P P P \<in> set calls"
    if "path h ps \<and> hd ps = root t \<and> meshDrawer (h ! last ps) = Some m" for ps m
  proof -
    from that have p: "path h ps" and hd: "hd ps = root t"
      and md: "meshDrawer (h ! last ps) = Some m"
      by auto
    from c hd have "draw MatrixMult fuel h (hd ps) ident ident ident ident = Some calls"
      by simp
    from draw_path_mesh[OF p this md] path_product_foldl[of MatrixMult ident, OF ident p]
    show ?thesis by simp
  qed
  have up: "\<exists>ps P. path h ps \<and> hd ps = root t \<and> meshDrawer (h ! last ps) = Some m \<and>
                 path_product MatrixMult h ps = Some P \<and>
                 A = P \<and> B = P \<and> C = P \<and> D = P"
    if "MeshDraw m A B C D \<in> set calls" for m A B C D
  proof -
    from draw_mesh_path[OF c that] obtain ps where ps: "path h ps" "hd ps = root t"
      "meshDrawer (h ! last ps) = Some m"
      "A = foldl MatrixMult ident (map (local_transform h) ps)"
      "B = foldl MatrixMult ident (map (local_transform h) ps)"
      "C = foldl MatrixMult ident (map (local_transform h) ps)"
      "D = foldl MatrixMult ident (map (local_transform h) ps)"
      by blast
    with path_product_foldl[of MatrixMult ident, OF ident ps(1)] show ?thesis by auto
  qed
  from c c' s down up show ?thesis by blast
qed

theorem mesh_matrix_is_path_product_witness:
  "(\<forall>x :: string list. [] @ x = x) \<and>
   scene_tree example_scene (Tree 0 [Tree 1 [Tree 2 []], Tree 3 []]) \<and>
   tree_height (Tree 0 [Tree 1 [Tree 2 []], Tree 3 []]) \<le> 3 \<and>
   path example_scene [0, 1, 2] \<and>
   meshDrawer (example_scene ! 2) = Some ''moonMesh'' \<and>
   path_product (@) example_scene [0, 1, 2] = Some [''S'', ''E'', ''m''] \<and>
   (\<exists>calls calls'.
      draw (@) 3 example_scene 0 [] [] [] [] = Some calls \<and>
      draw_part_000 (@) 3 example_scene 0 [] [] [] [] = Some calls' \<and>
      MeshDraw ''moonMesh'' [''S'', ''E'', ''m''] [''S'', ''E'', ''m''] [''S'', ''E'', ''m'']
        [''S'', ''E'', ''m''] \<in> set calls \<and>
      MeshDraw ''moonMesh'' [''S'', ''E'', ''m''] [''S'', ''E'', ''m''] [''S'', ''E'', ''m'']
        [''S'', ''E'', ''m''] \<in> set calls')"
  (is "?I \<and> ?T \<and> ?H \<and> ?P \<and> ?M \<and> ?Q \<and> ?X")
proof -
  have I: ?I by simp
  have T: ?T by (simp add: example_scene_eq)
  have H: ?H by simp
  have P: ?P by (simp add: example_scene_eq)
  have M: ?M by (simp add: example_scene_eq)
  have Q: ?Q by (simp add: example_scene_eq local_transform_def)
  from mesh_matrix_is_path_product[of "(@)" "[]", OF I T H] obtain calls calls' where
    c: "draw (@) 3 example_scene (root (Tree 0 [Tree 1 [Tree 2 []], Tree 3 []])) [] [] [] []
          = Some calls"
       "draw_part_000 (@) 3 example_scene (root (Tree 0 [Tree 1 [Tree 2 []], Tree 3 []]))
          [] [] [] [] = Some calls'"
       "set calls' = set calls"
       "\<forall>ps m. path example_scene ps \<and> hd ps = root (Tree 0 [Tree 1 [Tree 2 []], Tree 3 []]) \<and>
               meshDrawer (example_scene ! last ps) = Some m \<longrightarrow>
          (\<exists>P. path_product (@) example_scene ps = Some P \<and> MeshDraw m P P P P \<in> set calls)"
    by blast
  from c(4)[rule_format, of "[0, 1, 2]" "''moonMesh''"] P M Q
  have "MeshDraw ''moonMesh'' [''S'', ''E'', ''m''] [''S'', ''E'', ''m''] [''S'', ''E'', ''m'']
        [''S'', ''E'', ''m''] \<in> set calls"
    by simp
  with c(1,2,3) have X: ?X by auto
  from I T H P M Q X show ?thesis by blast
qed

subsection \<open>C3: children and mesh, in which order\<close>

text \<open>
  Claim C3 says that \<open>draw\<close> of every SceneNode recurses into the children first and
  draws the mesh of the node afterwards. The \<open>draw\<close> of \<open>part_000\<close> does it the other
  way round: on a root with one child, the MeshDrawer of the root is drawn before
  \<open>draw\<close> is called on the child, where the \<open>draw\<close> of \<open>meshDrawer.js\<close> draws it
  last.
\<close>

theorem draw_part_000_mesh_before_children:
  "draw_part_000 (@) 2
     [\<lparr>meshDrawer = Some ''rootMesh'', trs = TRS [''R''], parent = None, children = [1]\<rparr>,
      \<lparr>meshDrawer = Some ''childMesh'', trs = TRS [''C''], parent = Some 0, children = []\<rparr>]
     0 [] [] [] [] =
   Some [NodeDraw 0 [] [] [] [],
         MeshDraw ''rootMesh'' [''R''] [''R''] [''R''] [''R''],
         NodeDraw 1 [''R''] [''R''] [''R''] [''R''],
         MeshDraw ''childMesh'' [''R'', ''C''] [''R'', ''C''] [''R'', ''C''] [''R'', ''C'']] \<and>
   draw (@) 2
     [\<lparr>meshDrawer = Some ''rootMesh'', trs = TRS [''R''], parent = None, children = [1]\<rparr>,
      \<lparr>meshDrawer = Some ''childMesh'', trs = TRS [''C''], parent = Some 0, children = []\<rparr>]
     0 [] [] [] [] =
   Some [NodeDraw 0 [] [] [] [],
         NodeDraw 1 [''R''] [''R''] [''R''] [''R''],
         MeshDraw ''childMesh'' [''R'', ''C''] [''R'', ''C''] [''R'', ''C''] [''R'', ''C''],
         MeshDraw ''rootMesh'' [''R''] [''R''] [''R''] [''R'']]"
  by (simp add: draw.simps draw_part_000.simps numeral_2_eq_2 Let_def)

text \<open>
  Claim C3, amended. Let the nodes below a node form a finite tree. The \<open>draw\<close> of
  \<open>meshDrawer.js\<close> on that node returns; it first calls \<open>draw\<close> on every child, in the
  order of the children array and with the four composed matrices, and then draws the
  MeshDrawer of the node, if it has one, with the same four matrices. The \<open>draw\<close> of
  \<open>part_000\<close> returns as well; it draws the MeshDrawer of the node first and then calls
  \<open>draw\<close> on every child, in the same order and with the same matrices. The order of
  the children array is the order of insertion: \<open>addChild\<close> appends.
\<close>

theorem draw_children_then_mesh:
  fixes MatrixMult :: "'m \<Rightarrow> 'm \<Rightarrow> 'm" and h :: "('d, 'm) heap" and t :: tree and N :: ref
    and L :: 'm
  defines "N \<equiv> root t" and "L \<equiv> local_transform h (root t)"
  assumes tree: "scene_tree h t" and fuel: "tree_height t \<le> fuel"
  shows
  "(\<exists>calls below.
      draw MatrixMult fuel h N mvp modelView normalMatrix modelMatrix = Some calls \<and>
      map (\<lambda>child. draw MatrixMult (fuel - 1) h child (MatrixMult mvp L) (MatrixMult modelView L)
             (MatrixMult normalMatrix L) (MatrixMult modelMatrix L))
          (children (h ! N)) = map Some below \<and>
      map (\<lambda>b. hd (drawn_nodes b)) below = children (h ! N) \<and>
      calls = [NodeDraw N mvp modelView normalMatrix modelMatrix] @ concat below @
        (case meshDrawer (h ! N) of
           None \<Rightarrow> []
         | Some m \<Rightarrow> [MeshDraw m (MatrixMult mvp L) (MatrixMult modelView L)
                        (MatrixMult normalMatrix L) (MatrixMult modelMatrix L)])) \<and>
   (\<exists>calls below.
      draw_part_000 MatrixMult fuel h N mvp modelView normalMatrix modelMatrix = Some calls \<and>
      map (\<lambda>child. draw_part_000 MatrixMult (fuel - 1) h child (MatrixMult mvp L)
             (MatrixMult modelView L) (MatrixMult normalMatrix L) (MatrixMult modelMatrix L))
          (children (h ! N)) = map Some below \<and>
      map (\<lambda>b. hd (drawn_nodes b)) below = children (h ! N) \<and>
      calls = [NodeDraw N mvp modelView normalMatrix modelMatrix] @
        (case meshDrawer (h ! N) of
           None \<Rightarrow> []
         | Some m \<Rightarrow> [MeshDraw m (MatrixMult mvp L) (MatrixMult modelView L)
                        (MatrixMult normalMatrix L) (MatrixMult modelMatrix L)]) @
        concat below) \<and>
   (P < length h \<longrightarrow> children (addChild h P node ! P) = children (h ! P) @ [node])"
  (is "?X \<and> ?Y \<and> ?Z")
proof (intro conjI)
  from fuel tree_height_pos[of t] obtain n where n: "fuel = Suc n" by (cases fuel) auto
  from draw_scene_tree[OF tree fuel, of MatrixMult mvp modelView normalMatrix modelMatrix]
  obtain calls where
    c: "draw MatrixMult (Suc n) h N mvp modelView normalMatrix modelMatrix = Some calls"
    unfolding n N_def by blast
  then obtain below where
    m: "map (\<lambda>child. draw MatrixMult n h child (MatrixMult mvp L)
              (MatrixMult modelView L) (MatrixMult normalMatrix L) (MatrixMult modelMatrix L))
          (children (h ! N)) = map Some below"
    and cs: "calls = NodeDraw N mvp modelView normalMatrix modelMatrix # concat below @
           (case meshDrawer (h ! N) of
              None \<Rightarrow> []
            | Some m \<Rightarrow> [MeshDraw m (MatrixMult mvp L) (MatrixMult modelView L)
                           (MatrixMult normalMatrix L) (MatrixMult modelMatrix L)])"
    unfolding draw_Suc_Some L_def N_def local_transform_def by blast
  from draws_start_at_children[OF m] c m cs show ?X
    unfolding n by (intro exI[of _ calls] exI[of _ below]) simp
next
  from fuel tree_height_pos[of t] obtain n where n: "fuel = Suc n" by (cases fuel) auto
  from draw_part_000_scene_tree[OF tree fuel, of MatrixMult mvp modelView normalMatrix modelMatrix]
  obtain calls where
    c: "draw_part_000 MatrixMult (Suc n) h N mvp modelView normalMatrix modelMatrix = Some calls"
    unfolding n N_def by blast
  then obtain below where
    m: "map (\<lambda>child. draw_part_000 MatrixMult n h child (MatrixMult mvp L)
              (MatrixMult modelView L) (MatrixMult normalMatrix L) (MatrixMult modelMatrix L))
          (children (h ! N)) = map Some below"
    and cs: "calls = NodeDraw N mvp modelView normalMatrix modelMatrix #
           (case meshDrawer (h ! N) of
              None \<Rightarrow> []
            | Some m \<Rightarrow> [MeshDraw m (MatrixMult mvp L) (MatrixMult modelView L)
                           (MatrixMult normalMatrix L) (MatrixMult modelMatrix L)]) @
           concat below"
    unfolding draw_part_000_Suc_Some L_def N_def local_transform_def by blast
  from draws_part_000_start_at_children[OF m] c m cs show ?Y
    unfolding n by (intro exI[of _ calls] exI[of _ below]) simp
next
  show ?Z by (simp add: addChild_def)
qed

theorem draw_children_then_mesh_witness:
  "scene_tree example_scene (Tree 0 [Tree 1 [Tree 2 []], Tree 3 []]) \<and>
   tree_height (Tree 0 [Tree 1 [Tree 2 []], Tree 3 []]) \<le> 3 \<and>
   (0::nat) < length example_scene \<and>
   children (addChild example_scene 0 7 ! 0) = [1, 3, 7] \<and>
   (\<exists>calls below.
      draw (@) 3 example_scene 0 [''P''] [''V''] [''N''] [] = Some calls \<and>
      map (\<lambda>b. hd (drawn_nodes b)) below = [1, 3] \<and>
      calls = [NodeDraw 0 [''P''] [''V''] [''N''] []] @ concat below @
        [MeshDraw ''sunMesh'' [''P'', ''S''] [''V'', ''S''] [''N'', ''S''] [''S'']]) \<and>
   (\<exists>calls below.
      draw_part_000 (@) 3 example_scene 0 [''P''] [''V''] [''N''] [] = Some calls \<and>
      map (\<lambda>b. hd (drawn_nodes b)) below = [1, 3] \<and>
      calls = [NodeDraw 0 [''P''] [''V''] [''N''] []] @
        [MeshDraw ''sunMesh'' [''P'', ''S''] [''V'', ''S''] [''N'', ''S''] [''S'']] @
        concat below)"
  (is "?T \<and> ?H \<and> ?E \<and> ?F \<and> ?X \<and> ?Y")
proof -
  have T: ?T by (simp add: example_scene_eq)
  have H: ?H by simp
  have E: ?E by (simp add: example_scene_eq)
  have cs: "children (example_scene ! 0) = [1, 3]"
    and L: "local_transform example_scene 0 = [''S'']"
    and md: "meshDrawer (example_scene ! 0) = Some ''sunMesh''"
    by (simp_all add: example_scene_eq local_transform_def)
  note inst = draw_children_then_mesh[OF T H, of "(@)" "[''P'']" "[''V'']" "[''N'']" "[]" 0 7,
      unfolded tree.sel cs L md option.case]
  from inst[THEN conjunct2, THEN conjunct2] E have F: ?F by simp
  from inst[THEN conjunct1] obtain calls below where
    "draw (@) 3 example_scene 0 [''P''] [''V''] [''N''] [] = Some calls"
    "map (\<lambda>b. hd (drawn_nodes b)) below = [1, 3]"
    "calls = [NodeDraw 0 [''P''] [''V''] [''N''] []] @ concat below @
        [MeshDraw ''sunMesh'' ([''P''] @ [''S'']) ([''V''] @ [''S''])
          ([''N''] @ [''S'']) ([] @ [''S''])]"
    by (elim exE conjE)
  then have X: ?X by (intro exI[of _ calls] exI[of _ below]) simp
  from inst[THEN conjunct2, THEN conjunct1] obtain calls' below' where
    "draw_part_000 (@) 3 example_scene 0 [''P''] [''V''] [''N''] [] = Some calls'"
    "map (\<lambda>b. hd (drawn_nodes b)) below' = [1, 3]"
    "calls' = [NodeDraw 0 [''P''] [''V''] [''N''] []] @
        [MeshDraw ''sunMesh'' ([''P''] @ [''S'']) ([''V''] @ [''S''])
          ([''N''] @ [''S'']) ([] @ [''S''])] @ concat below'"
    by (elim exE conjE)
  then have Y: ?Y by (intro exI[of _ calls'] exI[of _ below']) simp
  from T H E F X Y show ?thesis by (intro conjI)
qed

subsection \<open>C4: every node once\<close>

text \<open>
  Claim C4. Let the nodes below a root form a finite tree \<open>t\<close> in which no node occurs
  twice. Then \<open>draw\<close> on the root returns (with fuel for the height of the tree, and
  with more), it calls \<open>SceneNode.draw\<close> exactly once on every node of the tree and on
  no other node, and it calls \<open>MeshDrawer.draw\<close> once for every node that has a
  MeshDrawer: a MeshDrawer is drawn as many times as there are nodes that hold it. A
  root without children is a tree of height 1: the call returns without a nested call.
  This holds for the \<open>draw\<close> of both files; in \<open>meshDrawer.js\<close> the meshes are drawn in
  postorder, in \<open>part_000\<close> in preorder.
  (Lemma \<open>constructed_is_forest\<close>: the nodes below any node of a heap built by the
  constructors form such a tree.)
\<close>

theorem draw_once_per_node:
  assumes "scene_tree h t" and "distinct (preorder t)" and "tree_height t \<le> fuel"
  shows "(\<exists>calls. draw MatrixMult fuel h (root t) a b c d = Some calls \<and>
            drawn_nodes calls = preorder t \<and>
            drawn_meshes calls = meshes_of h (postorder t) \<and>
            (\<forall>n \<in> set (preorder t). count_list (drawn_nodes calls) n = 1) \<and>
            (\<forall>m. count_list (drawn_meshes calls) m =
                 card {n \<in> set (preorder t). meshDrawer (h ! n) = Some m})) \<and>
         (\<exists>calls. draw_part_000 MatrixMult fuel h (root t) a b c d = Some calls \<and>
            drawn_nodes calls = preorder t \<and>
            drawn_meshes calls = meshes_of h (preorder t) \<and>
            (\<forall>n \<in> set (preorder t). count_list (drawn_nodes calls) n = 1) \<and>
            (\<forall>m. count_list (drawn_meshes calls) m =
                 card {n \<in> set (preorder t). meshDrawer (h ! n) = Some m})) \<and>
         (children (h ! root t) = [] \<longrightarrow> tree_height t = 1)"
proof (intro conjI)
  have post: "distinct (postorder t)" "set (postorder t) = set (preorder t)"
    using assms(2) mset_postorder[of t] by (metis mset_eq_imp_distinct_iff, metis mset_eq_setD)
  from draw_scene_tree[OF assms(1,3), of MatrixMult a b c d] obtain calls where
    c: "draw MatrixMult fuel h (root t) a b c d = Some calls"
      "drawn_nodes calls = preorder t" "drawn_meshes calls = meshes_of h (postorder t)"
    by blast
  have "\<forall>n \<in> set (preorder t). count_list (drawn_nodes calls) n = 1"
    using c(2) assms(2) by (simp add: count_list_distinct)
  moreover have "\<forall>m. count_list (drawn_meshes calls) m =
                 card {n \<in> set (preorder t). meshDrawer (h ! n) = Some m}"
    using count_list_meshes_of[OF post(1), of h] c(3) post(2) by simp
  ultimately show "\<exists>calls. draw MatrixMult fuel h (root t) a b c d = Some calls \<and>
            drawn_nodes calls = preorder t \<and>
            drawn_meshes calls = meshes_of h (postorder t) \<and>
            (\<forall>n \<in> set (preorder t). count_list (drawn_nodes calls) n = 1) \<and>
            (\<forall>m. count_list (drawn_meshes calls) m =
                 card {n \<in> set (preorder t). meshDrawer (h ! n) = Some m})"
    using c by blast
next
  from draw_part_000_scene_tree[OF assms(1,3), of MatrixMult a b c d] obtain calls where
    c: "draw_part_000 MatrixMult fuel h (root t) a b c d = Some calls"
      "drawn_nodes calls = preorder t" "drawn_meshes calls = meshes_of h (preorder t)"
    by blast
  have "\<forall>n \<in> set (preorder t). count_list (drawn_nodes calls) n = 1"
    using c(2) assms(2) by (simp add: count_list_distinct)
  moreover have "\<forall>m. count_list (drawn_meshes calls) m =
                 card {n \<in> set (preorder t). meshDrawer (h ! n) = Some m}"
    using count_list_meshes_of[OF assms(2), of h] c(3) by simp
  ultimately show "\<exists>calls. draw_part_000 MatrixMult fuel h (root t) a b c d = Some calls \<and>
            drawn_nodes calls = preorder t \<and>
            drawn_meshes calls = meshes_of h (preorder t) \<and>
            (\<forall>n \<in> set (preorder t). count_list (drawn_nodes calls) n = 1) \<and>
            (\<forall>m. count_list (drawn_meshes calls) m =
                 card {n \<in> set (preorder t). meshDrawer (h ! n) = Some m})"
    using c by blast
next
  show "children (h ! root t) = [] \<longrightarrow> tree_height t = 1"
    using assms(1) by (cases t) auto
qed

theorem draw_once_per_node_witness:
  "scene_tree example_scene (Tree 0 [Tree 1 [Tree 2 []], Tree 3 []]) \<and>
   distinct (preorder (Tree 0 [Tree 1 [Tree 2 []], Tree 3 []])) \<and>
   tree_height (Tree 0 [Tree 1 [Tree 2 []], Tree 3 []]) \<le> 3 \<and>
   (\<exists>calls. draw (@) 3 example_scene 0 [''P''] [''V''] [''N''] [] = Some calls \<and>
      drawn_nodes calls = [0, 1, 2, 3] \<and>
      drawn_meshes calls = [''moonMesh'', ''earthMesh'', ''sunMesh''] \<and>
      count_list (drawn_nodes calls) 2 = 1 \<and>
      count_list (drawn_meshes calls) ''moonMesh'' = 1) \<and>
   (\<exists>calls. draw_part_000 (@) 3 example_scene 0 [''P''] [''V''] [''N''] [] = Some calls \<and>
      drawn_nodes calls = [0, 1, 2, 3] \<and>
      drawn_meshes calls = [''sunMesh'', ''earthMesh'', ''moonMesh''] \<and>
      count_list (drawn_nodes calls) 2 = 1 \<and>
      count_list (drawn_meshes calls) ''moonMesh'' = 1)"
  (is "?T \<and> ?D \<and> ?H \<and> ?X \<and> ?Y")
proof -
  have T: ?T by (simp add: example_scene_eq)
  have D: ?D by simp
  have H: ?H by simp
  have pre: "preorder (Tree 0 [Tree 1 [Tree 2 []], Tree 3 []]) = [0, 1, 2, 3]" by simp
  have post: "meshes_of example_scene (postorder (Tree 0 [Tree 1 [Tree 2 []], Tree 3 []]))
      = [''moonMesh'', ''earthMesh'', ''sunMesh'']"
    by (simp add: meshes_of_def map_filter_def example_scene_eq)
  have pre': "meshes_of example_scene [0, 1, 2, 3] = [''sunMesh'', ''earthMesh'', ''moonMesh'']"
    by (simp add: meshes_of_def map_filter_def example_scene_eq)
  have moon: "{n \<in> set [0, 1, 2, 3]. meshDrawer (example_scene ! n) = Some ''moonMesh''} = {2}"
    by (auto simp: example_scene_eq)
  note inst = draw_once_per_node[OF T D H, of "(@)" "[''P'']" "[''V'']" "[''N'']" "[]",
      unfolded post pre' pre tree.sel]
  from inst obtain calls where
    c: "draw (@) 3 example_scene 0 [''P''] [''V''] [''N''] [] = Some calls"
      "drawn_nodes calls = [0, 1, 2, 3]"
      "drawn_meshes calls = [''moonMesh'', ''earthMesh'', ''sunMesh'']"
      "\<forall>n \<in> set [0, 1, 2, 3]. count_list (drawn_nodes calls) n = 1"
      "\<forall>m. count_list (drawn_meshes calls) m =
         card {n \<in> set [0, 1, 2, 3]. meshDrawer (example_scene ! n) = Some m}"
    by blast
  from c(4) have "count_list (drawn_nodes calls) 2 = 1" by simp
  moreover have "count_list (drawn_meshes calls) ''moonMesh'' = card {2::nat}"
    by (simp only: c(5) moon)
  then have "count_list (drawn_meshes calls) ''moonMesh'' = 1" by simp
  ultimately have X: ?X using c(1,2,3) by blast
  from inst obtain calls' where
    c': "draw_part_000 (@) 3 example_scene 0 [''P''] [''V''] [''N''] [] = Some calls'"
      "drawn_nodes calls' = [0, 1, 2, 3]"
      "drawn_meshes calls' = [''sunMesh'', ''earthMesh'', ''moonMesh'']"
      "\<forall>n \<in> set [0, 1, 2, 3]. count_list (drawn_nodes calls') n = 1"
      "\<forall>m. count_list (drawn_meshes calls') m =
         card {n \<in> set [0, 1, 2, 3]. meshDrawer (example_scene ! n) = Some m}"
    by blast
  from c'(4) have "count_list (drawn_nodes calls') 2 = 1" by simp
  moreover have "count_list (drawn_meshes calls') ''moonMesh'' = card {2::nat}"
    by (simp only: c'(5) moon)
  then have "count_list (drawn_meshes calls') ''moonMesh'' = 1" by simp
  ultimately have Y: ?Y using c'(1,2,3) by blast
  from T D H X Y show ?thesis by blast
qed

subsection \<open>C5: the triangle count\<close>

text \<open>
  Claim C5 says that after \<open>setMesh\<close> with positions of length \<open>n\<close> the stored count is
  \<open>n\<close> divided by 3, for every \<open>n\<close>. The count is the JavaScript quotient, a double: for
  ten positions it is \<open>3.3333333333333335\<close>, which is not 10 / 3.
\<close>

theorem setMesh_ten_positions:
  "numTriangles (fst (setMesh
      (MeshDrawer_constructor 1 \<lparr>position = 0, normal = 1, texCoord = 2\<rparr>
         \<lparr>mvp_loc = 10, mv_loc = 11, normalMV_loc = 12, modelMatrix_loc = 13,
          isLightSource_loc = 14, tex_loc = 15\<rparr>
         \<lparr>position = 20, normal = 21, texCoord = 22\<rparr> 30 False)
      [0, 0, 0, 1, 0, 0, 0, 1, 0, 1 :: rat] [] []
      :: MeshDrawer \<times> (rat, rat) gl_call list))
     = 7505999378950827 / 2251799813685248 \<and>
   numTriangles (fst (setMesh
      (MeshDrawer_constructor 1 \<lparr>position = 0, normal = 1, texCoord = 2\<rparr>
         \<lparr>mvp_loc = 10, mv_loc = 11, normalMV_loc = 12, modelMatrix_loc = 13,
          isLightSource_loc = 14, tex_loc = 15\<rparr>
         \<lparr>position = 20, normal = 21, texCoord = 22\<rparr> 30 False)
      [0, 0, 0, 1, 0, 0, 0, 1, 0, 1 :: rat] [] []
      :: MeshDrawer \<times> (rat, rat) gl_call list))
     \<noteq> 10 / 3"
  by (simp add: setMesh_def js_divide_def binade_shift.simps Let_def)

text \<open>
  Claim C5, amended. After \<open>setMesh\<close> with positions of length \<open>n\<close> the stored count
  \<open>numTriangles\<close> is the JavaScript quotient of \<open>n\<close> by 3. When \<open>n\<close> is a multiple of
  3, as for every mesh of whole vertices, it is exactly \<open>n / 3\<close>: 3 for nine positions,
  0 for none. For every other length below \<open>3 * 2 ^ 53\<close> it is the double nearest to
  \<open>n / 3\<close>, within half a unit in the last place. The last call that \<open>draw\<close> makes is
  \<open>drawArrays(TRIANGLES, 0, numTriangles)\<close>, and it is the only call of \<open>drawArrays\<close>;
  so \<open>draw\<close> after \<open>setMesh\<close> passes that count, and 0 after a \<open>setMesh\<close> without
  positions or before any \<open>setMesh\<close>, since the constructor sets the count to 0.
\<close>

theorem setMesh_numTriangles:
  "numTriangles (fst (setMesh this vertPos texCoords normals)) = js_divide (length vertPos) 3 \<and>
   (3 dvd length vertPos \<longrightarrow>
      numTriangles (fst (setMesh this vertPos texCoords normals)) = of_nat (length vertPos) / 3) \<and>
   (0 < length vertPos \<and> length vertPos < 3 * 2 ^ 53 \<longrightarrow>
      (\<exists>m. numTriangles (fst (setMesh this vertPos texCoords normals)) =
             of_nat m / 2 ^ binade_shift (length vertPos) 3 \<and>
           2 ^ 52 \<le> m \<and> m \<le> 2 ^ 53 \<and>
           \<bar>numTriangles (fst (setMesh this vertPos texCoords normals)) -
              of_nat (length vertPos) / 3\<bar>
             \<le> 1 / 2 ^ Suc (binade_shift (length vertPos) 3))) \<and>
   numTriangles (fst (setMesh this [x1, x2, x3, x4, x5, x6, x7, x8, x9] texCoords normals)) = 3 \<and>
   numTriangles (fst (setMesh this [] texCoords normals)) = 0 \<and>
   last (MeshDrawer_draw (fst (setMesh this vertPos texCoords normals)) a b c d) =
     drawArrays TRIANGLES 0 (js_divide (length vertPos) 3) \<and>
   last (MeshDrawer_draw (fst (setMesh this [] texCoords normals)) a b c d) =
     drawArrays TRIANGLES 0 0 \<and>
   last (MeshDrawer_draw (MeshDrawer_constructor p al ul bs tx ls) a b c d) =
     drawArrays TRIANGLES 0 0 \<and>
   MeshDrawer_draw this a b c d =
     butlast (MeshDrawer_draw this a b c d) @ [drawArrays TRIANGLES 0 (numTriangles this)] \<and>
   (\<forall>mode first count. drawArrays mode first count \<notin> set (butlast (MeshDrawer_draw this a b c d)))"
proof -
  have n: "numTriangles (fst (setMesh this vs texCoords normals)) = js_divide (length vs) 3"
    for vs
    by (simp add: setMesh_def)
  have exact: "3 dvd length vertPos \<longrightarrow>
      numTriangles (fst (setMesh this vertPos texCoords normals)) = of_nat (length vertPos) / 3"
  proof
    assume d: "3 dvd length vertPos"
    then have "js_divide (length vertPos) 3 = of_nat (length vertPos div 3)"
      by (rule js_divide_exact) simp
    also have "\<dots> = of_nat (length vertPos) / 3"
      using d by (auto elim: dvdE)
    finally show "numTriangles (fst (setMesh this vertPos texCoords normals)) =
        of_nat (length vertPos) / 3"
      by (simp add: n)
  qed
  have near: "0 < length vertPos \<and> length vertPos < 3 * 2 ^ 53 \<longrightarrow>
      (\<exists>m. numTriangles (fst (setMesh this vertPos texCoords normals)) =
             of_nat m / 2 ^ binade_shift (length vertPos) 3 \<and>
           2 ^ 52 \<le> m \<and> m \<le> 2 ^ 53 \<and>
           \<bar>numTriangles (fst (setMesh this vertPos texCoords normals)) -
              of_nat (length vertPos) / 3\<bar>
             \<le> 1 / 2 ^ Suc (binade_shift (length vertPos) 3))"
    using js_divide_rounds[of "length vertPos" 3] unfolding n by simp
  have nine: "numTriangles (fst (setMesh this [x1, x2, x3, x4, x5, x6, x7, x8, x9]
      texCoords normals)) = 3"
  proof -
    have "length [x1, x2, x3, x4, x5, x6, x7, x8, x9] = 9" by simp
    moreover have "js_divide 9 3 = 3" using js_divide_exact[of 3 9] by simp
    ultimately show ?thesis by (simp only: n)
  qed
  have none: "numTriangles (fst (setMesh this [] texCoords normals)) = 0"
    using js_divide_exact[of 3 0] by (simp add: n)
  have last: "last (MeshDrawer_draw d a b c d') = drawArrays TRIANGLES 0 (numTriangles d)"
    for d :: MeshDrawer and d'
    by (simp add: MeshDrawer_draw_def)
  have rest: "MeshDrawer_draw this a b c d =
     butlast (MeshDrawer_draw this a b c d) @ [drawArrays TRIANGLES 0 (numTriangles this)] \<and>
   (\<forall>mode first count. drawArrays mode first count \<notin> set (butlast (MeshDrawer_draw this a b c d)))"
    by (simp add: MeshDrawer_draw_def enableVertexAttrib_def butlast_append)
  have ctor: "numTriangles (MeshDrawer_constructor p al ul bs tx ls) = 0"
    by (simp add: MeshDrawer_constructor_def)
  show ?thesis
    using exact near nine none rest by (simp add: last n ctor)
qed

theorem setMesh_numTriangles_witness:
  "3 dvd length [0, 0, 0, 1, 0, 0, 0, 1, 0 :: rat] \<and>
   numTriangles (fst (setMesh
      (MeshDrawer_constructor 1 \<lparr>position = 0, normal = 1, texCoord = 2\<rparr>
         \<lparr>mvp_loc = 10, mv_loc = 11, normalMV_loc = 12, modelMatrix_loc = 13,
          isLightSource_loc = 14, tex_loc = 15\<rparr>
         \<lparr>position = 20, normal = 21, texCoord = 22\<rparr> 30 False)
      [0, 0, 0, 1, 0, 0, 0, 1, 0 :: rat] [] []
      :: MeshDrawer \<times> (rat, rat) gl_call list)) = 3 \<and>
   0 < length [0, 0, 0, 1, 0, 0, 0, 1, 0, 1 :: rat] \<and>
   length [0, 0, 0, 1, 0, 0, 0, 1, 0, 1 :: rat] < 3 * 2 ^ 53 \<and>
   binade_shift 10 3 = 51 \<and>
   \<bar>numTriangles (fst (setMesh
      (MeshDrawer_constructor 1 \<lparr>position = 0, normal = 1, texCoord = 2\<rparr>
         \<lparr>mvp_loc = 10, mv_loc = 11, normalMV_loc = 12, modelMatrix_loc = 13,
          isLightSource_loc = 14, tex_loc = 15\<rparr>
         \<lparr>position = 20, normal = 21, texCoord = 22\<rparr> 30 False)
      [0, 0, 0, 1, 0, 0, 0, 1, 0, 1 :: rat] [] []
      :: MeshDrawer \<times> (rat, rat) gl_call list)) - 10 / 3\<bar> \<le> 1 / 2 ^ 52"
  (is "?D \<and> ?E \<and> ?P \<and> ?B \<and> ?K \<and> ?N")
proof -
  define this where "this =
      MeshDrawer_constructor 1 \<lparr>position = 0, normal = 1, texCoord = 2\<rparr>
         \<lparr>mvp_loc = 10, mv_loc = 11, normalMV_loc = 12, modelMatrix_loc = 13,
          isLightSource_loc = 14, tex_loc = 15\<rparr>
         \<lparr>position = 20, normal = 21, texCoord = 22\<rparr> 30 False"
  have l9: "length [0, 0, 0, 1, 0, 0, 0, 1, 0 :: rat] = 9"
    and l10: "length [0, 0, 0, 1, 0, 0, 0, 1, 0, 1 :: rat] = 10"
    by simp_all
  have D: ?D unfolding l9 by simp
  have P: ?P unfolding l10 by simp
  have B: ?B unfolding l10 by simp
  have K: ?K by (simp add: binade_shift.simps)
  note nine = setMesh_numTriangles[of this "[0, 0, 0, 1, 0, 0, 0, 1, 0 :: rat]" "[]" "[]",
      THEN conjunct2, THEN conjunct1, rule_format, OF D]
  then have E: ?E unfolding this_def l9 by simp
  note ten = setMesh_numTriangles[of this "[0, 0, 0, 1, 0, 0, 0, 1, 0, 1 :: rat]" "[]" "[]",
      THEN conjunct2, THEN conjunct2, THEN conjunct1, rule_format, OF conjI[OF P B]]
  then have N: ?N unfolding this_def l10 K by auto
  from D E P B K N show ?thesis by blast
qed

subsection \<open>C6: mipmap or clamp\<close>

text \<open>
  Claim C6. Let \<open>isPowerOf2\<close> tell whether a number is a power of two. If the width and
  the height of the image are both powers of two, \<open>setTexture\<close> calls
  \<open>generateMipmap\<close>; otherwise it sets the minification filter to \<open>LINEAR\<close> and the
  wrapping on the S and on the T axis to \<open>CLAMP_TO_EDGE\<close> instead. In both cases it
  ends by activating texture unit 0, binding the texture and setting the sampler uniform
  to 0. The same holds for \<open>setTexture\<close> of the second class, which does not call
  \<open>useProgram\<close>.
\<close>

theorem setTexture_mipmap_or_clamp:
  assumes "\<forall>n. isPowerOf2' n = (\<exists>k. n = 2 ^ k)"
  shows "setTexture isPowerOf2' this img =
           [bindTexture TEXTURE_2D (texture this),
            texImage2D TEXTURE_2D 0 RGB RGB UNSIGNED_BYTE img] @
           (if (\<exists>j. width img = 2 ^ j) \<and> (\<exists>k. height img = 2 ^ k)
            then [generateMipmap TEXTURE_2D]
            else [texParameteri TEXTURE_2D TEXTURE_MIN_FILTER LINEAR,
                  texParameteri TEXTURE_2D TEXTURE_WRAP_S CLAMP_TO_EDGE,
                  texParameteri TEXTURE_2D TEXTURE_WRAP_T CLAMP_TO_EDGE]) @
           [useProgram (prog this),
            activeTexture TEXTURE0,
            bindTexture TEXTURE_2D (texture this),
            uniform1i (tex_loc (uniformLocations this)) 0] \<and>
         setTexture_second isPowerOf2' this img =
           [bindTexture TEXTURE_2D (texture this),
            texImage2D TEXTURE_2D 0 RGB RGB UNSIGNED_BYTE img] @
           (if (\<exists>j. width img = 2 ^ j) \<and> (\<exists>k. height img = 2 ^ k)
            then [generateMipmap TEXTURE_2D]
            else [texParameteri TEXTURE_2D TEXTURE_MIN_FILTER LINEAR,
                  texParameteri TEXTURE_2D TEXTURE_WRAP_S CLAMP_TO_EDGE,
                  texParameteri TEXTURE_2D TEXTURE_WRAP_T CLAMP_TO_EDGE]) @
           [activeTexture TEXTURE0,
            bindTexture TEXTURE_2D (texture this),
            uniform1i (tex_loc (uniformLocations this)) 0]"
  using assms by (simp add: setTexture_def setTexture_second_def)

theorem setTexture_mipmap_or_clamp_witness:
  "(\<forall>n. isPowerOf2 n = (\<exists>k. n = 2 ^ k)) \<and>
   isPowerOf2 256 \<and> \<not> isPowerOf2 100 \<and>
   setTexture isPowerOf2
     (MeshDrawer_constructor 1 \<lparr>position = 0, normal = 1, texCoord = 2\<rparr>
        \<lparr>mvp_loc = 10, mv_loc = 11, normalMV_loc = 12, modelMatrix_loc = 13,
         isLightSource_loc = 14, tex_loc = 15\<rparr>
        \<lparr>position = 20, normal = 21, texCoord = 22\<rparr> 30 False)
     \<lparr>width = 256, height = 256\<rparr> =
     [bindTexture TEXTURE_2D 30,
      texImage2D TEXTURE_2D 0 RGB RGB UNSIGNED_BYTE \<lparr>width = 256, height = 256\<rparr>,
      generateMipmap TEXTURE_2D,
      useProgram 1, activeTexture TEXTURE0, bindTexture TEXTURE_2D 30, uniform1i 15 0] \<and>
   setTexture isPowerOf2
     (MeshDrawer_constructor 1 \<lparr>position = 0, normal = 1, texCoord = 2\<rparr>
        \<lparr>mvp_loc = 10, mv_loc = 11, normalMV_loc = 12, modelMatrix_loc = 13,
         isLightSource_loc = 14, tex_loc = 15\<rparr>
        \<lparr>position = 20, normal = 21, texCoord = 22\<rparr> 30 False)
     \<lparr>width = 100, height = 100\<rparr> =
     [bindTexture TEXTURE_2D 30,
      texImage2D TEXTURE_2D 0 RGB RGB UNSIGNED_BYTE \<lparr>width = 100, height = 100\<rparr>,
      texParameteri TEXTURE_2D TEXTURE_MIN_FILTER LINEAR,
      texParameteri TEXTURE_2D TEXTURE_WRAP_S CLAMP_TO_EDGE,
      texParameteri TEXTURE_2D TEXTURE_WRAP_T CLAMP_TO_EDGE,
      useProgram 1, activeTexture TEXTURE0, bindTexture TEXTURE_2D 30, uniform1i 15 0]"
  (is "?I \<and> ?P \<and> ?N \<and> ?A \<and> ?B")
proof -
  have I: ?I by (simp add: isPowerOf2_iff)
  have P: ?P by (simp add: isPowerOf2.simps)
  have N: ?N by (simp add: isPowerOf2.simps)
  from P have p: "\<exists>k. (256::nat) = 2 ^ k" by (simp add: isPowerOf2_iff)
  from N have n: "\<not> (\<exists>k. (100::nat) = 2 ^ k)" by (simp add: isPowerOf2_iff)
  from p have p': "\<exists>k. 2 ^ k = (256::nat)" by (auto dest: sym)
  from n have n': "\<not> (\<exists>k. 2 ^ k = (100::nat))" by (auto dest: sym)
  note inst = setTexture_mipmap_or_clamp[of isPowerOf2, OF I, THEN conjunct1]
  have A: ?A
    by (subst inst) (simp add: p' MeshDrawer_constructor_def)
  have B: ?B
    by (subst inst) (simp add: n' MeshDrawer_constructor_def)
  from I P N A B show ?thesis by blast
qed

subsection \<open>C7: constructor with a parent, or addChild\<close>

text \<open>
  Claim C7. Let \<open>P\<close> be a node of the heap. Constructing a node with the parent \<open>P\<close>,
  and constructing it without a parent and calling \<open>addChild\<close> of \<open>P\<close> on it, give the
  same reference and the same children list for every node of the heap; in both heaps
  the new node is in the children list of \<open>P\<close>. The two heaps differ in the parent
  field of the new node only. This holds for the constructors of both files.
\<close>

theorem constructor_with_parent_is_addChild:
  fixes h :: "('d, 'm) heap" and m :: "'d option" and t :: "'m TRS" and P :: ref
  defines "with_parent \<equiv> SceneNode_constructor h m t (Some P)"
    and "parentless \<equiv> SceneNode_constructor h m t None"
    and "with_parent' \<equiv> SceneNode_constructor_part_000 h m t (Some P)"
    and "parentless' \<equiv> SceneNode_constructor_part_000 h m t None"
  assumes P: "P < length h"
  shows "snd with_parent = snd parentless \<and>
         map children (fst with_parent) =
           map children (addChild (fst parentless) P (snd parentless)) \<and>
         snd with_parent \<in> set (children (fst with_parent ! P)) \<and>
         snd parentless \<in> set (children (addChild (fst parentless) P (snd parentless) ! P)) \<and>
         fst with_parent =
           (addChild (fst parentless) P (snd parentless))
             [snd parentless :=
                (addChild (fst parentless) P (snd parentless) ! snd parentless)
                  \<lparr>parent := Some P\<rparr>] \<and>
         snd with_parent' = snd parentless' \<and>
         map children (fst with_parent') =
           map children (addChild (fst parentless') P (snd parentless')) \<and>
         snd with_parent' \<in> set (children (fst with_parent' ! P)) \<and>
         snd parentless' \<in> set (children (addChild (fst parentless') P (snd parentless') ! P)) \<and>
         fst with_parent' =
           (addChild (fst parentless') P (snd parentless'))
             [snd parentless' :=
                (addChild (fst parentless') P (snd parentless') ! snd parentless')
                  \<lparr>parent := Some P\<rparr>]"
  unfolding with_parent_def parentless_def with_parent'_def parentless'_def
    SceneNode_constructor_part_000_eq
  using constructor_with_parent_aux[OF P, of m t] by blast

theorem constructor_with_parent_is_addChild_witness:
  "(0::nat) < length example_scene \<and>
   SceneNode_constructor example_scene (Some ''venusMesh'') (TRS [''V'']) (Some 0) =
     (example_scene
        [0 := \<lparr>meshDrawer = Some ''sunMesh'', trs = TRS [''S''], parent = None,
                children = [1, 3, 4]\<rparr>] @
      [\<lparr>meshDrawer = Some ''venusMesh'', trs = TRS [''V''], parent = Some 0, children = []\<rparr>],
      4) \<and>
   children (addChild
       (fst (SceneNode_constructor example_scene (Some ''venusMesh'') (TRS [''V'']) None)) 0
       (snd (SceneNode_constructor example_scene (Some ''venusMesh'') (TRS [''V'']) None)) ! 0)
     = [1, 3, 4] \<and>
   map children (fst (SceneNode_constructor example_scene (Some ''venusMesh'') (TRS [''V''])
       (Some 0))) =
     map children (addChild
       (fst (SceneNode_constructor example_scene (Some ''venusMesh'') (TRS [''V'']) None)) 0
       (snd (SceneNode_constructor example_scene (Some ''venusMesh'') (TRS [''V'']) None)))"
  (is "?P \<and> ?A \<and> ?B \<and> ?C")
proof -
  have P: ?P by (simp add: example_scene_eq)
  have A: ?A
    by (simp add: example_scene_eq SceneNode_constructor_def addChild_def Let_def)
  have B: ?B
    by (simp add: example_scene_eq SceneNode_constructor_def addChild_def Let_def)
  from constructor_with_parent_is_addChild[OF P, of "Some ''venusMesh''" "TRS [''V'']"]
  have C: ?C by blast
  from P A B C show ?thesis by blast
qed

subsection \<open>C8: the parent holds the child once\<close>

text \<open>
  Claim C8. In a heap built by the constructors only, every node with a parent is exactly
  once in the children list of that parent (and the parent is a node of the heap). A
  constructor and \<open>addChild\<close> keep every node that exists, keep its parent field and
  keep its children list as a prefix of the new one: no node is given another parent
  and none is removed.
\<close>

theorem constructed_parent_holds_child_once:
  assumes "constructed h"
  shows "(\<forall>n < length h. \<forall>p. parent (h ! n) = Some p \<longrightarrow>
            p < length h \<and> count_list (children (h ! p)) n = 1) \<and>
         (\<forall>n < length h.
            parent (fst (SceneNode_constructor h m t q) ! n) = parent (h ! n) \<and>
            (\<exists>new. children (fst (SceneNode_constructor h m t q) ! n) = children (h ! n) @ new) \<and>
            parent (fst (SceneNode_constructor_part_000 h m t q) ! n) = parent (h ! n) \<and>
            (\<exists>new. children (fst (SceneNode_constructor_part_000 h m t q) ! n) =
               children (h ! n) @ new) \<and>
            parent (addChild h p' c ! n) = parent (h ! n) \<and>
            (\<exists>new. children (addChild h p' c ! n) = children (h ! n) @ new)) \<and>
         length (fst (SceneNode_constructor h m t q)) = Suc (length h) \<and>
         length (fst (SceneNode_constructor_part_000 h m t q)) = Suc (length h) \<and>
         length (addChild h p' c) = length h"
proof -
  from constructed_family_inv[OF assms]
  have 1: "\<forall>n < length h. \<forall>p. parent (h ! n) = Some p \<longrightarrow>
            p < length h \<and> count_list (children (h ! p)) n = 1"
    unfolding family_inv_def by blast
  have 2: "\<forall>n < length h.
            parent (fst (SceneNode_constructor h m t q) ! n) = parent (h ! n) \<and>
            (\<exists>new. children (fst (SceneNode_constructor h m t q) ! n) = children (h ! n) @ new) \<and>
            parent (fst (SceneNode_constructor_part_000 h m t q) ! n) = parent (h ! n) \<and>
            (\<exists>new. children (fst (SceneNode_constructor_part_000 h m t q) ! n) =
               children (h ! n) @ new) \<and>
            parent (addChild h p' c ! n) = parent (h ! n) \<and>
            (\<exists>new. children (addChild h p' c ! n) = children (h ! n) @ new)"
    using constructor_keeps_old_nodes[of _ h m t q] addChild_keeps_nodes[of h p' c]
    unfolding SceneNode_constructor_part_000_eq by blast
  have 3: "length (fst (SceneNode_constructor h m t q)) = Suc (length h)"
    "length (fst (SceneNode_constructor_part_000 h m t q)) = Suc (length h)"
    "length (addChild h p' c) = length h"
    by (simp_all add: SceneNode_constructor_part_000_eq constructor_length addChild_length)
  from 1 2 3 show ?thesis by (intro conjI)
qed

theorem constructed_parent_holds_child_once_witness:
  "constructed example_scene \<and>
   parent (example_scene ! 2) = Some 1 \<and>
   (2::nat) < length example_scene \<and>
   count_list (children (example_scene ! 1)) 2 = 1 \<and>
   parent (fst (SceneNode_constructor example_scene None (TRS [''V'']) (Some 1)) ! 2) = Some 1 \<and>
   parent (addChild example_scene 0 2 ! 2) = Some 1"
  (is "?A \<and> ?B \<and> ?C \<and> ?D \<and> ?E \<and> ?F")
proof -
  have A: ?A by (rule constructed_example_scene)
  have B: ?B by (simp add: example_scene_eq)
  have C: ?C by (simp add: example_scene_eq)
  note inst = constructed_parent_holds_child_once[OF A, of None "TRS [''V'']" "Some 1" 0 2]
  from inst[THEN conjunct1, rule_format, OF C B] have D: ?D by simp
  from inst[THEN conjunct2, THEN conjunct1, rule_format, OF C] B have E: ?E by simp
  from inst[THEN conjunct2, THEN conjunct1, rule_format, OF C] B have F: ?F by simp
  from A B C D E F show ?thesis by blast
qed

subsection \<open>C9: no error\<close>

text \<open>
  Claim C9. On a finite tree \<open>draw\<close> returns its calls; the model has no other outcome
  than returning or not returning, as the source has no \<open>throw\<close>. All nodes of the
  tree are visited. Drawing the same heap with every MeshDrawer removed gives exactly
  the calls of \<open>SceneNode.draw\<close> of the original, with the same matrices: a node without
  a MeshDrawer only lacks its call of \<open>MeshDrawer.draw\<close>. At a root without a MeshDrawer
  the calls are the call on the root and those of the children; at a root without children
  they are the call on the root and the one of its MeshDrawer, if it has one. This holds
  for the \<open>draw\<close> of both files.
\<close>

theorem draw_signals_no_error:
  fixes MatrixMult :: "'m \<Rightarrow> 'm \<Rightarrow> 'm" and h :: "('d, 'm) heap" and t :: tree
  defines "L \<equiv> local_transform h (root t)"
  assumes tree: "scene_tree h t" and fuel: "tree_height t \<le> fuel"
  shows
  "(\<exists>calls. draw MatrixMult fuel h (root t) a b c d = Some calls \<and>
      drawn_nodes calls = preorder t \<and>
      draw MatrixMult fuel (map (\<lambda>n. n\<lparr>meshDrawer := None\<rparr>) h) (root t) a b c d
        = Some (node_calls calls) \<and>
      (meshDrawer (h ! root t) = None \<longrightarrow>
         (\<exists>below.
            map (\<lambda>child. draw MatrixMult (fuel - 1) h child (MatrixMult a L) (MatrixMult b L)
                   (MatrixMult c L) (MatrixMult d L))
                (children (h ! root t)) = map Some below \<and>
            calls = NodeDraw (root t) a b c d # concat below)) \<and>
      (children (h ! root t) = [] \<longrightarrow>
         calls = NodeDraw (root t) a b c d #
           (case meshDrawer (h ! root t) of
              None \<Rightarrow> []
            | Some m \<Rightarrow> [MeshDraw m (MatrixMult a L) (MatrixMult b L)
                           (MatrixMult c L) (MatrixMult d L)]))) \<and>
   (\<exists>calls. draw_part_000 MatrixMult fuel h (root t) a b c d = Some calls \<and>
      drawn_nodes calls = preorder t \<and>
      draw_part_000 MatrixMult fuel (map (\<lambda>n. n\<lparr>meshDrawer := None\<rparr>) h) (root t) a b c d
        = Some (node_calls calls) \<and>
      (meshDrawer (h ! root t) = None \<longrightarrow>
         (\<exists>below.
            map (\<lambda>child. draw_part_000 MatrixMult (fuel - 1) h child (MatrixMult a L)
                   (MatrixMult b L) (MatrixMult c L) (MatrixMult d L))
                (children (h ! root t)) = map Some below \<and>
            calls = NodeDraw (root t) a b c d # concat below)) \<and>
      (children (h ! root t) = [] \<longrightarrow>
         calls = NodeDraw (root t) a b c d #
           (case meshDrawer (h ! root t) of
              None \<Rightarrow> []
            | Some m \<Rightarrow> [MeshDraw m (MatrixMult a L) (MatrixMult b L)
                           (MatrixMult c L) (MatrixMult d L)])))"
  (is "?X \<and> ?Y")
proof -
  from fuel obtain n where n: "fuel = Suc n" by (cases t; cases fuel) auto
  from draw_scene_tree[OF tree fuel, of MatrixMult a b c d] obtain calls where
    c: "draw MatrixMult fuel h (root t) a b c d = Some calls" "drawn_nodes calls = preorder t"
    by blast
  from c(1) have s: "draw MatrixMult fuel (map (\<lambda>n. n\<lparr>meshDrawer := None\<rparr>) h) (root t) a b c d
        = Some (node_calls calls)"
    by (simp add: draw_without_meshes)
  from c(1) obtain below where below:
    "map (\<lambda>child. draw MatrixMult n h child (MatrixMult a L) (MatrixMult b L)
           (MatrixMult c L) (MatrixMult d L)) (children (h ! root t)) = map Some below"
    "calls = NodeDraw (root t) a b c d # concat below @
       (case meshDrawer (h ! root t) of
          None \<Rightarrow> []
        | Some m \<Rightarrow> [MeshDraw m (MatrixMult a L) (MatrixMult b L)
                       (MatrixMult c L) (MatrixMult d L)])"
    unfolding n draw_Suc_Some L_def local_transform_def by blast
  have 1: "meshDrawer (h ! root t) = None \<longrightarrow>
         (\<exists>below.
            map (\<lambda>child. draw MatrixMult (fuel - 1) h child (MatrixMult a L) (MatrixMult b L)
                   (MatrixMult c L) (MatrixMult d L))
                (children (h ! root t)) = map Some below \<and>
            calls = NodeDraw (root t) a b c d # concat below)"
    using below by (auto simp: n)
  have 2: "children (h ! root t) = [] \<longrightarrow>
         calls = NodeDraw (root t) a b c d #
           (case meshDrawer (h ! root t) of
              None \<Rightarrow> []
            | Some m \<Rightarrow> [MeshDraw m (MatrixMult a L) (MatrixMult b L)
                           (MatrixMult c L) (MatrixMult d L)])"
    using below by auto
  from draw_part_000_scene_tree[OF tree fuel, of MatrixMult a b c d] obtain calls' where
    c': "draw_part_000 MatrixMult fuel h (root t) a b c d = Some calls'"
      "drawn_nodes calls' = preorder t"
    by blast
  from c'(1) have s': "draw_part_000 MatrixMult fuel (map (\<lambda>n. n\<lparr>meshDrawer := None\<rparr>) h)
        (root t) a b c d = Some (node_calls calls')"
    by (simp add: draw_part_000_without_meshes)
  from c'(1) obtain below' where below':
    "map (\<lambda>child. draw_part_000 MatrixMult n h child (MatrixMult a L) (MatrixMult b L)
           (MatrixMult c L) (MatrixMult d L)) (children (h ! root t)) = map Some below'"
    "calls' = NodeDraw (root t) a b c d #
       (case meshDrawer (h ! root t) of
          None \<Rightarrow> []
        | Some m \<Rightarrow> [MeshDraw m (MatrixMult a L) (MatrixMult b L)
                       (MatrixMult c L) (MatrixMult d L)]) @ concat below'"
    unfolding n draw_part_000_Suc_Some L_def local_transform_def by blast
  have 3: "meshDrawer (h ! root t) = None \<longrightarrow>
         (\<exists>below.
            map (\<lambda>child. draw_part_000 MatrixMult (fuel - 1) h child (MatrixMult a L)
                   (MatrixMult b L) (MatrixMult c L) (MatrixMult d L))
                (children (h ! root t)) = map Some below \<and>
            calls' = NodeDraw (root t) a b c d # concat below)"
    using below' by (auto simp: n)
  have 4: "children (h ! root t) = [] \<longrightarrow>
         calls' = NodeDraw (root t) a b c d #
           (case meshDrawer (h ! root t) of
              None \<Rightarrow> []
            | Some m \<Rightarrow> [MeshDraw m (MatrixMult a L) (MatrixMult b L)
                           (MatrixMult c L) (MatrixMult d L)])"
    using below' by auto
  have X: ?X
    by (rule exI[of _ calls]) (intro conjI c s 1 2)
  have Y: ?Y
    by (rule exI[of _ calls']) (intro conjI c' s' 3 4)
  from X Y show ?thesis by (rule conjI)
qed

theorem draw_signals_no_error_witness:
  "scene_tree example_scene (Tree 3 []) \<and>
   tree_height (Tree 3 []) \<le> 1 \<and>
   meshDrawer (example_scene ! 3) = None \<and>
   children (example_scene ! 3) = [] \<and>
   draw (@) 1 example_scene 3 [''P''] [''V''] [''N''] [] =
     Some [NodeDraw 3 [''P''] [''V''] [''N''] []] \<and>
   draw_part_000 (@) 1 example_scene 3 [''P''] [''V''] [''N''] [] =
     Some [NodeDraw 3 [''P''] [''V''] [''N''] []] \<and>
   scene_tree example_scene (Tree 0 [Tree 1 [Tree 2 []], Tree 3 []]) \<and>
   tree_height (Tree 0 [Tree 1 [Tree 2 []], Tree 3 []]) \<le> 3 \<and>
   (\<exists>calls. draw (@) 3 example_scene 0 [''P''] [''V''] [''N''] [] = Some calls \<and>
      drawn_nodes calls = [0, 1, 2, 3] \<and>
      draw (@) 3 (map (\<lambda>n. n\<lparr>meshDrawer := None\<rparr>) example_scene) 0 [''P''] [''V''] [''N''] []
        = Some (node_calls calls))"
  (is "?T \<and> ?H \<and> ?M \<and> ?C \<and> ?D \<and> ?E \<and> ?T' \<and> ?H' \<and> ?X")
proof -
  have T: ?T by (simp add: example_scene_eq)
  have H: ?H by simp
  have M: ?M by (simp add: example_scene_eq)
  have C: ?C by (simp add: example_scene_eq)
  have T': ?T' by (simp add: example_scene_eq)
  have H': ?H' by simp
  note mars = draw_signals_no_error[OF T H, of "(@)" "[''P'']" "[''V'']" "[''N'']" "[]",
      unfolded tree.sel]
  from mars C M have D: ?D by auto
  from mars C M have E: ?E by auto
  note sun = draw_signals_no_error[OF T' H', of "(@)" "[''P'']" "[''V'']" "[''N'']" "[]",
      THEN conjunct1, unfolded tree.sel]
  have pre: "preorder (Tree 0 [Tree 1 [Tree 2 []], Tree 3 []]) = [0, 1, 2, 3]" by simp
  from sun have X: ?X unfolding pre by blast
  from T H M C D E T' H' X show ?thesis by blast
qed

subsection \<open>C10: the two draw functions\<close>

text \<open>
  Claim C10. On a finite tree the \<open>draw\<close> of \<open>meshDrawer.js\<close> and the \<open>draw\<close> of
  \<open>part_000\<close> both return; they make the same calls with the same matrices, each as
  often as the other, and the same calls of \<open>SceneNode.draw\<close> in the same order. They
  differ in the order of the calls of \<open>MeshDrawer.draw\<close>: postorder in \<open>meshDrawer.js\<close>
  (a node after its children), preorder in \<open>part_000\<close> (a node before its children).
\<close>

theorem draw_variants_same_calls:
  assumes "scene_tree h t" and "tree_height t \<le> fuel"
  shows "\<exists>calls calls'.
           draw MatrixMult fuel h (root t) a b c d = Some calls \<and>
           draw_part_000 MatrixMult fuel h (root t) a b c d = Some calls' \<and>
           mset calls' = mset calls \<and>
           node_calls calls' = node_calls calls \<and>
           drawn_nodes calls = preorder t \<and>
           drawn_nodes calls' = preorder t \<and>
           drawn_meshes calls = meshes_of h (postorder t) \<and>
           drawn_meshes calls' = meshes_of h (preorder t)"
proof -
  from draw_scene_tree[OF assms, of MatrixMult a b c d] obtain calls where
    c: "draw MatrixMult fuel h (root t) a b c d = Some calls"
      "drawn_nodes calls = preorder t" "drawn_meshes calls = meshes_of h (postorder t)"
    by blast
  from draw_part_000_scene_tree[OF assms, of MatrixMult a b c d] obtain calls' where
    c': "draw_part_000 MatrixMult fuel h (root t) a b c d = Some calls'"
      "drawn_nodes calls' = preorder t" "drawn_meshes calls' = meshes_of h (preorder t)"
    by blast
  from draw_part_000_same_set[OF c(1)] c'(1)
  have "mset calls' = mset calls" "node_calls calls' = node_calls calls"
    by auto
  with c c' show ?thesis by blast
qed

theorem draw_variants_same_calls_witness:
  "scene_tree example_scene (Tree 0 [Tree 1 [Tree 2 []], Tree 3 []]) \<and>
   tree_height (Tree 0 [Tree 1 [Tree 2 []], Tree 3 []]) \<le> 3 \<and>
   (\<exists>calls calls'.
      draw (@) 3 example_scene 0 [''P''] [''V''] [''N''] [] = Some calls \<and>
      draw_part_000 (@) 3 example_scene 0 [''P''] [''V''] [''N''] [] = Some calls' \<and>
      mset calls' = mset calls \<and>
      node_calls calls' = node_calls calls \<and>
      drawn_meshes calls = [''moonMesh'', ''earthMesh'', ''sunMesh''] \<and>
      drawn_meshes calls' = [''sunMesh'', ''earthMesh'', ''moonMesh''])"
  (is "?T \<and> ?H \<and> ?X")
proof -
  have T: ?T by (simp add: example_scene_eq)
  have H: ?H by simp
  have post: "meshes_of example_scene (postorder (Tree 0 [Tree 1 [Tree 2 []], Tree 3 []]))
      = [''moonMesh'', ''earthMesh'', ''sunMesh'']"
    by (simp add: meshes_of_def map_filter_def example_scene_eq)
  have pre: "meshes_of example_scene (preorder (Tree 0 [Tree 1 [Tree 2 []], Tree 3 []]))
      = [''sunMesh'', ''earthMesh'', ''moonMesh'']"
    by (simp add: meshes_of_def map_filter_def example_scene_eq)
  from draw_variants_same_calls[OF T H, of "(@)" "[''P'']" "[''V'']" "[''N'']" "[]"]
  have X: ?X unfolding post pre tree.sel by blast
  from T H X show ?thesis by blast
qed

end
